theory Spec2Isabelle
  imports Complex_Main "HOL-Library.AList" "HOL-Library.Multiset" "HOL-Library.Product_Lexorder"
begin

section \<open>Python strings and numbers\<close>

text \<open>
  A Python \<open>str\<close> is modelled as a \<open>string\<close> whose characters are the code points
  below 256.  A Python \<open>float\<close> is modelled by the exact decimal value of the literal it
  was converted from (a \<open>rat\<close>); rounding to binary floating point is not modelled.
\<close>

datatype error = ValueError

definition bind :: "error + 'a \<Rightarrow> ('a \<Rightarrow> error + 'b) \<Rightarrow> error + 'b" where
  "bind m f = (case m of Inl e \<Rightarrow> Inl e | Inr x \<Rightarrow> f x)"

text \<open>\<open>str.isspace\<close> on one character, which is also the class \<open>\s\<close> of \<open>re\<close>:
  code points 9 to 13, 28 to 32, 0x85 and 0xA0.\<close>

definition is_space :: "char \<Rightarrow> bool" where
  "is_space c =
     (c \<in> set [CHR 0x09, CHR 0x0A, CHR 0x0B, CHR 0x0C, CHR 0x0D, CHR 0x1C, CHR 0x1D, CHR 0x1E,
                CHR 0x1F, CHR 0x20, CHR 0x85, CHR 0xA0])"

text \<open>The class \<open>\d\<close>: below 256 the only decimal digits are \<open>0\<close> to \<open>9\<close>.\<close>

definition is_digit :: "char \<Rightarrow> bool" where
  "is_digit c = (c \<in> set ''0123456789'')"

text \<open>\<open>str.lower\<close> on one character: the upper-case letters below 256 are 65 to 90
  and 192 to 222 without 215.\<close>

definition lower_char :: "char \<Rightarrow> char" where
  "lower_char c = (let n = of_char c :: nat in
     if (65 \<le> n \<and> n \<le> 90) \<or> (192 \<le> n \<and> n \<le> 222 \<and> n \<noteq> 215)
     then char_of (n + 32) else c)"


definition lower :: "string \<Rightarrow> string" where
  "lower s = map lower_char s"

text \<open>\<open>s.split()\<close>: the maximal runs of non-whitespace characters, in order.\<close>

fun split_acc :: "string \<Rightarrow> string \<Rightarrow> string list" where
  "split_acc cur [] = (if cur = [] then [] else [rev cur])"
| "split_acc cur (c # cs) =
     (if is_space c then (if cur = [] then split_acc [] cs else rev cur # split_acc [] cs)
      else split_acc (c # cur) cs)"

definition split :: "string \<Rightarrow> string list" where
  "split s = split_acc [] s"

text \<open>The value of a run of decimal digits.\<close>

definition digit_val :: "char \<Rightarrow> nat" where
  "digit_val c = of_char c - 48"

definition digits_val :: "string \<Rightarrow> nat" where
  "digits_val ds = foldl (\<lambda>acc c. 10 * acc + digit_val c) 0 ds"

text \<open>
  \<open>float(tok)\<close> for the tokens this program can pass to it.  Every token comes out of a
  group that admits only digits, \<open>.\<close>, \<open>-\<close> and whitespace, and \<open>split\<close> has removed the
  whitespace; on that alphabet \<open>float\<close> accepts an optional sign followed by digits with
  at most one \<open>.\<close> and at least one digit, and raises \<open>ValueError\<close> otherwise.
\<close>

definition unsigned_float :: "string \<Rightarrow> error + rat" where
  "unsigned_float s =
     (let ip = takeWhile is_digit s; rest = dropWhile is_digit s in
      case rest of
        [] \<Rightarrow> if ip = [] then Inl ValueError else Inr (of_nat (digits_val ip))
      | c # fp \<Rightarrow>
          if c = CHR ''.'' \<and> list_all is_digit fp \<and> (ip \<noteq> [] \<or> fp \<noteq> [])
          then Inr (of_nat (digits_val ip) + of_nat (digits_val fp) / 10 ^ length fp)
          else Inl ValueError)"

definition float :: "string \<Rightarrow> error + rat" where
  "float s =
     (case s of
        c # r \<Rightarrow>
          if c = CHR ''-'' then bind (unsigned_float r) (\<lambda>v. Inr (- v))
          else if c = CHR ''+'' then unsigned_float r
          else unsigned_float s
      | [] \<Rightarrow> Inl ValueError)"

text \<open>\<open>list(map(float, toks))\<close>: the first token that fails raises.\<close>

fun map_float :: "string list \<Rightarrow> error + rat list" where
  "map_float [] = Inr []"
| "map_float (t # ts) = bind (float t) (\<lambda>v. bind (map_float ts) (\<lambda>vs. Inr (v # vs)))"

section \<open>Regular expressions\<close>

text \<open>
  The fragment of \<open>re\<close> the patterns of the program use.  \<open>rmatch\<close> lists every way a
  pattern matches a prefix of the text, in the order in which the backtracking matcher
  of \<open>re\<close> tries them, each with its captured groups and the text left over; the matcher
  takes the first.
\<close>

datatype atom = D | S | Ch char

datatype cls = Pos "atom list" | Neg "atom list" | Any

datatype rx =
    Lit string
  | Plus cls
  | LazyStar cls
  | Grp nat rx
  | Opt rx
  | Seq rx rx

fun in_atom :: "atom \<Rightarrow> char \<Rightarrow> bool" where
  "in_atom D c = is_digit c"
| "in_atom S c = is_space c"
| "in_atom (Ch d) c = (c = d)"

fun in_cls :: "cls \<Rightarrow> char \<Rightarrow> bool" where
  "in_cls (Pos as) c = list_ex (\<lambda>a. in_atom a c) as"
| "in_cls (Neg as) c = (\<not> list_ex (\<lambda>a. in_atom a c) as)"
| "in_cls Any c = True"

text \<open>A literal against the start of the text, leaving the rest of the text; under
  \<open>re.IGNORECASE\<close> two characters match when they are equal or have the same lower case.\<close>

definition char_eq :: "bool \<Rightarrow> char \<Rightarrow> char \<Rightarrow> bool" where
  "char_eq ic c x = (if c = x then True else if ic then lower_char c = lower_char x else False)"

fun strip_lit :: "bool \<Rightarrow> string \<Rightarrow> string \<Rightarrow> string option" where
  "strip_lit ic [] s = Some s"
| "strip_lit ic (x # l) [] = None"
| "strip_lit ic (x # l) (c # s) = (if char_eq ic c x then strip_lit ic l s else None)"

text \<open>The texts left after zero, one, two, ... leading characters of a class, as far as
  the characters are in the class.\<close>

fun runs :: "cls \<Rightarrow> string \<Rightarrow> string list" where
  "runs c [] = [[]]"
| "runs c (x # xs) = (x # xs) # (if in_cls c x then runs c xs else [])"

type_synonym caps = "(nat \<times> string) list"

text \<open>A greedy \<open>+\<close> tries the longest run first, a lazy \<open>*?\<close> the shortest; a group
  records the text its pattern consumed; \<open>?\<close> tries its pattern before the empty match.\<close>

fun rmatch :: "bool \<Rightarrow> rx \<Rightarrow> string \<Rightarrow> (caps \<times> string) list" where
  "rmatch ic (Lit l) s = (case strip_lit ic l s of Some rest \<Rightarrow> [([], rest)] | None \<Rightarrow> [])"
| "rmatch ic (Plus c) s = map (\<lambda>t. ([], t)) (rev (tl (runs c s)))"
| "rmatch ic (LazyStar c) s = map (\<lambda>t. ([], t)) (runs c s)"
| "rmatch ic (Grp n r) s =
     map (\<lambda>(c, s'). ((n, take (length s - length s') s) # c, s')) (rmatch ic r s)"
| "rmatch ic (Opt r) s = rmatch ic r s @ [([], s)]"
| "rmatch ic (Seq r1 r2) s =
     concat (map (\<lambda>(c1, s1). map (\<lambda>(c2, s2). (c1 @ c2, s2)) (rmatch ic r2 s1))
                 (rmatch ic r1 s))"

text \<open>\<open>re.search\<close>: the first match at the leftmost position that has one.\<close>

fun re_search :: "bool \<Rightarrow> rx \<Rightarrow> string \<Rightarrow> (caps \<times> string) option" where
  "re_search ic r [] = (case rmatch ic r [] of m # _ \<Rightarrow> Some m | [] \<Rightarrow> None)"
| "re_search ic r (c # cs) =
     (case rmatch ic r (c # cs) of m # _ \<Rightarrow> Some m | [] \<Rightarrow> re_search ic r cs)"

text \<open>\<open>m.group(n)\<close>: \<open>None\<close> for a group that took no part in the match.\<close>

definition group :: "caps \<Rightarrow> nat \<Rightarrow> string option" where
  "group c n = map_of c n"

section \<open>Geometry and pose extraction\<close>

text \<open>
  \<open>parse_geometry\<close> and \<open>parse_origin\<close> of \<open>URDF3DViewer\<close>.  The class exists twice: in
  \<open>urdf-3d-viewer.py\<close>, where the patterns are case-sensitive, and as the viewer script
  embedded in \<open>urdf-viewer.py\<close>, where every search passes \<open>re.IGNORECASE\<close>.  The flag
  \<open>ic\<close> selects the variant.
\<close>

datatype geometry = Box "rat list" | Cylinder rat rat | Sphere rat

record pose =
  xyz :: "rat list"
  rpy :: "rat list"

text \<open>A pattern written as the sequence of its parts.\<close>

fun seq :: "rx list \<Rightarrow> rx" where
  "seq [] = Lit []"
| "seq [r] = r"
| "seq (r # rs) = Seq r (seq rs)"

text \<open>\<open><box\s+size="([\d\.\s]+)"\<close>\<close>

definition box_pattern :: rx where
  \<open>box_pattern =
     seq [Lit ''<box'', Plus (Pos [S]), Lit ''size="'',
          Grp 1 (Plus (Pos [D, Ch CHR ''.'', S])), Lit ''"'']\<close>

text \<open>\<open><cylinder\s+radius="([\d\.]+)"\s+length="([\d\.]+)"\<close>\<close>

definition cylinder_pattern :: rx where
  \<open>cylinder_pattern =
     seq [Lit ''<cylinder'', Plus (Pos [S]), Lit ''radius="'',
          Grp 1 (Plus (Pos [D, Ch CHR ''.''])), Lit ''"'', Plus (Pos [S]), Lit ''length="'',
          Grp 2 (Plus (Pos [D, Ch CHR ''.''])), Lit ''"'']\<close>

text \<open>\<open><sphere\s+radius="([\d\.]+)"\<close>\<close>

definition sphere_pattern :: rx where
  \<open>sphere_pattern =
     seq [Lit ''<sphere'', Plus (Pos [S]), Lit ''radius="'',
          Grp 1 (Plus (Pos [D, Ch CHR ''.''])), Lit ''"'']\<close>

text \<open>\<open><origin\s+xyz="([-\d\.\s]+)"(?:\s+rpy="([-\d\.\s]+)")?\<close>\<close>

definition origin_pattern :: rx where
  \<open>origin_pattern =
     seq [Lit ''<origin'', Plus (Pos [S]), Lit ''xyz="'',
          Grp 1 (Plus (Pos [Ch CHR ''-'', D, Ch CHR ''.'', S])), Lit ''"'',
          Opt (seq [Plus (Pos [S]), Lit ''rpy="'',
                    Grp 2 (Plus (Pos [Ch CHR ''-'', D, Ch CHR ''.'', S])), Lit ''"''])]\<close>

definition default_box :: geometry where
  "default_box = Box [1 / 10, 1 / 10, 1 / 10]"

definition zero3 :: "rat list" where
  "zero3 = [0, 0, 0]"

definition zero_pose :: pose where
  "zero_pose = \<lparr>xyz = zero3, rpy = zero3\<rparr>"

text \<open>The text of a group that took part in the match.\<close>

definition group_text :: "caps \<Rightarrow> nat \<Rightarrow> string" where
  "group_text c n = (case group c n of Some g \<Rightarrow> g | None \<Rightarrow> [])"

definition sphere_step :: "bool \<Rightarrow> string \<Rightarrow> error + geometry" where
  "sphere_step ic content =
     (case re_search ic sphere_pattern content of
        Some (m, _) \<Rightarrow> bind (float (group_text m 1)) (\<lambda>r. Inr (Sphere r))
      | None \<Rightarrow> Inr default_box)"

definition cylinder_step :: "bool \<Rightarrow> string \<Rightarrow> error + geometry" where
  "cylinder_step ic content =
     (case re_search ic cylinder_pattern content of
        Some (m, _) \<Rightarrow>
          bind (float (group_text m 1)) (\<lambda>r.
          bind (float (group_text m 2)) (\<lambda>l. Inr (Cylinder r l)))
      | None \<Rightarrow> sphere_step ic content)"

definition parse_geometry :: "bool \<Rightarrow> string \<Rightarrow> error + geometry" where
  "parse_geometry ic content =
     (case re_search ic box_pattern content of
        Some (m, _) \<Rightarrow>
          bind (map_float (split (group_text m 1))) (\<lambda>sizes.
            if length sizes \<ge> 3 then Inr (Box (take 3 sizes))
            else cylinder_step ic content)
      | None \<Rightarrow> cylinder_step ic content)"

text \<open>
  \<open>parse_origin\<close>.  The two variants differ in one more place: the embedded script
  replaces an \<open>rpy\<close> of fewer than three numbers by zeros, \<open>urdf-3d-viewer.py\<close> keeps it.
\<close>

definition parse_rpy :: "bool \<Rightarrow> caps \<Rightarrow> error + rat list" where
  "parse_rpy embedded m =
     (case group m 2 of
        Some g \<Rightarrow>
          bind (map_float (split g)) (\<lambda>r.
            Inr (if embedded \<and> length r < 3 then zero3 else r))
      | None \<Rightarrow> Inr zero3)"

definition parse_origin :: "bool \<Rightarrow> string \<Rightarrow> error + pose" where
  "parse_origin embedded content =
     (case re_search embedded origin_pattern content of
        Some (m, _) \<Rightarrow>
          bind (map_float (split (group_text m 1))) (\<lambda>xyz0.
          let xyz1 = (if length xyz0 < 3 then zero3 else xyz0) in
          bind (parse_rpy embedded m) (\<lambda>rpy1.
            Inr \<lparr>xyz = take 3 xyz1, rpy = take 3 rpy1\<rparr>))
      | None \<Rightarrow> Inr zero_pose)"

section \<open>Well-formed shape tags\<close>

text \<open>
  What the round-trip property of geometry extraction quantifies over: a fragment is a
  text without shape tags, then one shape tag written the way the patterns expect it,
  then a text without shape tags.
\<close>




text \<open>A non-empty token of digits and dots: what the classes \<open>[\d\.]\<close> admit.\<close>

definition decimal :: "string \<Rightarrow> bool" where
  "decimal t = (t \<noteq> [] \<and> list_all (\<lambda>c. is_digit c \<or> c = CHR ''.'') t)"






section \<open>The structural parser\<close>

text \<open>\<open>sub in s\<close> for strings.\<close>

fun contains :: "string \<Rightarrow> string \<Rightarrow> bool" where
  "contains sub [] = (sub = [])"
| "contains sub (c # cs) = (take (length sub) (c # cs) = sub \<or> contains sub cs)"

text \<open>
  \<open>re.finditer\<close>: the matches from left to right, each search starting where the match
  before it ended.  Every pattern the program iterates starts with a literal, so a match
  is never empty; the model stops after a match that consumed nothing.
\<close>

function finditer :: "bool \<Rightarrow> rx \<Rightarrow> string \<Rightarrow> caps list" where
  "finditer ic r s =
     (case re_search ic r s of
        None \<Rightarrow> []
      | Some (m, rest) \<Rightarrow> if length rest < length s then m # finditer ic r rest else [m])"
  by pat_completeness auto
termination
  by (relation "measure (\<lambda>(ic, r, s). length s)") auto

declare finditer.simps [simp del]

text \<open>\<open><link\s+name="([^"]+)"(.*?)</link>\<close> and \<open><joint\s+name="([^"]+)"(.*?)</joint>\<close>,
  both searched with \<open>re.DOTALL\<close> and without \<open>re.IGNORECASE\<close> in either variant.\<close>

definition link_pattern :: rx where
  \<open>link_pattern =
     seq [Lit ''<link'', Plus (Pos [S]), Lit ''name="'', Grp 1 (Plus (Neg [Ch CHR 0x22])),
          Lit ''"'', Grp 2 (LazyStar Any), Lit ''</link>'']\<close>

definition joint_pattern :: rx where
  \<open>joint_pattern =
     seq [Lit ''<joint'', Plus (Pos [S]), Lit ''name="'', Grp 1 (Plus (Neg [Ch CHR 0x22])),
          Lit ''"'', Grp 2 (LazyStar Any), Lit ''</joint>'']\<close>

text \<open>\<open><visual>(.*?)</visual>\<close>, \<open><parent\s+link="([^"]+)"\<close> and \<open><child\s+link="([^"]+)"\<close>\<close>

definition visual_pattern :: rx where
  \<open>visual_pattern = seq [Lit ''<visual>'', Grp 1 (LazyStar Any), Lit ''</visual>'']\<close>

definition parent_pattern :: rx where
  \<open>parent_pattern =
     seq [Lit ''<parent'', Plus (Pos [S]), Lit ''link="'', Grp 1 (Plus (Neg [Ch CHR 0x22])),
          Lit ''"'']\<close>

definition child_pattern :: rx where
  \<open>child_pattern =
     seq [Lit ''<child'', Plus (Pos [S]), Lit ''link="'', Grp 1 (Plus (Neg [Ch CHR 0x22])),
          Lit ''"'']\<close>

record link =
  link_name :: string
  link_geometry :: geometry
  link_origin :: pose
  link_type :: string

text \<open>The joints of \<open>urdf-3d-viewer.py\<close> carry no name; those of the embedded script do.\<close>

record joint =
  joint_name :: "string option"
  joint_parent :: string
  joint_child :: string
  joint_origin :: pose

record model =
  links :: "link list"
  joints :: "joint list"

definition get_link_type :: "bool \<Rightarrow> string \<Rightarrow> string" where
  "get_link_type embedded nm =
     (let n = lower nm in
      if contains ''base'' n \<or> contains ''root'' n \<or> (embedded \<and> contains ''chassis'' n)
      then ''base''
      else if contains ''wheel'' n \<or> (embedded \<and> contains ''caster'' n) then ''wheel''
      else if contains ''camera'' n \<or> contains ''sensor'' n \<or> contains ''lidar'' n
      then ''sensor''
      else if contains ''gripper'' n \<or> contains ''hand'' n \<or> contains ''finger'' n
      then ''gripper''
      else if contains ''joint'' n then ''joint''
      else if embedded then (if contains ''link'' n then ''link'' else ''default'')
      else ''link'')"

text \<open>
  The body of the loop over the link matches.  \<open>urdf-3d-viewer.py\<close> reads geometry and
  origin from the whole link content.  The embedded script starts from the defaults and
  looks into the first \<open><visual>\<close> block only: the origin found there replaces the
  default when its \<open>xyz\<close> differs from \<open>[0.0, 0.0, 0.0]\<close>, the geometry when it is not the
  default box.
\<close>

definition link_of_match :: "bool \<Rightarrow> caps \<Rightarrow> error + link" where
  "link_of_match embedded m =
     (let nm = group_text m 1; link_content = group_text m 2 in
      if embedded then
        (case re_search True visual_pattern link_content of
           Some (vm, _) \<Rightarrow>
             (let visual_content = group_text vm 1 in
              bind (parse_origin True visual_content) (\<lambda>visual_origin.
              bind (parse_geometry True visual_content) (\<lambda>visual_geometry.
                Inr \<lparr>link_name = nm,
                     link_geometry =
                       (if (case visual_geometry of
                              Box sz \<Rightarrow> sz \<noteq> [1 / 10, 1 / 10, 1 / 10] | _ \<Rightarrow> True)
                        then visual_geometry else default_box),
                     link_origin =
                       (if xyz visual_origin \<noteq> [0, 0, 0] then visual_origin else zero_pose),
                     link_type = get_link_type True nm\<rparr>)))
         | None \<Rightarrow>
             Inr \<lparr>link_name = nm, link_geometry = default_box, link_origin = zero_pose,
                  link_type = get_link_type True nm\<rparr>)
      else
        bind (parse_geometry False link_content) (\<lambda>g.
        bind (parse_origin False link_content) (\<lambda>orig.
          Inr \<lparr>link_name = nm, link_geometry = g, link_origin = orig,
               link_type = get_link_type False nm\<rparr>)))"

text \<open>The body of the loop over the joint matches: a joint is appended only when both
  the parent and the child sub-tag are found.\<close>

definition joint_of_match :: "bool \<Rightarrow> caps \<Rightarrow> error + joint option" where
  "joint_of_match embedded m =
     (let joint_content = group_text m 2 in
      case (re_search False parent_pattern joint_content,
            re_search False child_pattern joint_content) of
        (Some (pm, _), Some (cm, _)) \<Rightarrow>
          bind (parse_origin embedded joint_content) (\<lambda>orig.
            Inr (Some \<lparr>joint_name = (if embedded then Some (group_text m 1) else None),
                       joint_parent = group_text pm 1, joint_child = group_text cm 1,
                       joint_origin = orig\<rparr>))
      | _ \<Rightarrow> Inr None)"

fun link_loop :: "bool \<Rightarrow> caps list \<Rightarrow> error + link list" where
  "link_loop embedded [] = Inr []"
| "link_loop embedded (m # ms) =
     bind (link_of_match embedded m) (\<lambda>l.
     bind (link_loop embedded ms) (\<lambda>ls. Inr (l # ls)))"

fun joint_loop :: "bool \<Rightarrow> caps list \<Rightarrow> error + joint list" where
  "joint_loop embedded [] = Inr []"
| "joint_loop embedded (m # ms) =
     bind (joint_of_match embedded m) (\<lambda>j.
     bind (joint_loop embedded ms) (\<lambda>js.
       Inr (case j of Some x \<Rightarrow> x # js | None \<Rightarrow> js)))"

text \<open>\<open>URDF3DViewer.parse_urdf\<close>: all links first, then all joints; an exception in either
  loop leaves the constructor.\<close>

definition parse_urdf :: "bool \<Rightarrow> string \<Rightarrow> error + model" where
  "parse_urdf embedded urdf_content =
     (if urdf_content = [] then Inr \<lparr>links = [], joints = []\<rparr>
      else
        bind (link_loop embedded (finditer False link_pattern urdf_content)) (\<lambda>ls.
        bind (joint_loop embedded (finditer False joint_pattern urdf_content)) (\<lambda>js.
          Inr \<lparr>links = ls, joints = js\<rparr>)))"

text \<open>Notions for the properties of the joint loop: a joint match is defective when the
  search for the parent or for the child sub-tag in its content fails; \<open>joint_ends\<close> are the
  parent and the child link that the two searches capture.\<close>

definition defective :: "caps \<Rightarrow> bool" where
  "defective m =
     (re_search False parent_pattern (group_text m 2) = None \<or>
      re_search False child_pattern (group_text m 2) = None)"

definition joint_ends :: "caps \<Rightarrow> string \<times> string" where
  "joint_ends m =
     (case (re_search False parent_pattern (group_text m 2),
            re_search False child_pattern (group_text m 2)) of
        (Some (pm, _), Some (cm, _)) \<Rightarrow> (group_text pm 1, group_text cm 1)
      | _ \<Rightarrow> ([], []))"

subsection \<open>\<open>parse_urdf_structure\<close> of \<open>urdf-viewer.py\<close>\<close>

text \<open>
  Link names are \<open>re.findall(r'<link\s+name="([^"]+)"', content)\<close>; joints are the matches
  of one pattern,
  \<open><joint\s+name="([^"]+)".*?<parent\s+link="([^"]+)".*?<child\s+link="([^"]+)"\<close>,
  searched with \<open>re.DOTALL\<close>.  The \<open>networkx\<close> graph built from both is left out.
\<close>

definition link_name_pattern :: rx where
  \<open>link_name_pattern =
     seq [Lit ''<link'', Plus (Pos [S]), Lit ''name="'', Grp 1 (Plus (Neg [Ch CHR 0x22])),
          Lit ''"'']\<close>

definition structure_joint_pattern :: rx where
  \<open>structure_joint_pattern =
     seq [Lit ''<joint'', Plus (Pos [S]), Lit ''name="'', Grp 1 (Plus (Neg [Ch CHR 0x22])),
          Lit ''"'', LazyStar Any,
          Lit ''<parent'', Plus (Pos [S]), Lit ''link="'', Grp 2 (Plus (Neg [Ch CHR 0x22])),
          Lit ''"'', LazyStar Any,
          Lit ''<child'', Plus (Pos [S]), Lit ''link="'', Grp 3 (Plus (Neg [Ch CHR 0x22])),
          Lit ''"'']\<close>

record sjoint =
  name :: string
  parent :: string
  child :: string

record urdf_structure =
  slinks :: "string list"
  sjoints :: "sjoint list"

definition parse_urdf_structure :: "string \<Rightarrow> urdf_structure" where
  "parse_urdf_structure content =
     (if content = [] then \<lparr>slinks = [], sjoints = []\<rparr>
      else
        \<lparr>slinks = map (\<lambda>m. group_text m 1) (finditer False link_name_pattern content),
         sjoints =
           map (\<lambda>m. \<lparr>name = group_text m 1, parent = group_text m 2, child = group_text m 3\<rparr>)
               (finditer False structure_joint_pattern content)\<rparr>)"

section \<open>The hierarchy builder\<close>

text \<open>
  The nested function \<open>build_hierarchy\<close> of \<open>create_hierarchical_diagram\<close>.  The dictionary
  \<open>hierarchy\<close> is an association list in insertion order, threaded through the calls.  A
  node gets its entry only when it has none (\<open>if node not in hierarchy\<close>); the loop over
  the joints then runs in every call, whether the entry is new or not.
\<close>

record node_info =
  node_depth :: nat
  node_children :: "string list"

type_synonym hierarchy = "(string \<times> node_info) list"

text \<open>\<open>hierarchy[node]['children'].append(child)\<close>: the entry exists, since the call
  made it before the loop and no entry is ever removed.\<close>

definition append_child :: "string \<Rightarrow> string \<Rightarrow> hierarchy \<Rightarrow> hierarchy" where
  "append_child node c h =
     (case map_of h node of
        Some info \<Rightarrow> AList.update node (info\<lparr>node_children := node_children info @ [c]\<rparr>) h
      | None \<Rightarrow> h)"

function build_hierarchy :: "sjoint list \<Rightarrow> string \<Rightarrow> nat \<Rightarrow> hierarchy \<Rightarrow> hierarchy" where
  "build_hierarchy js node d h =
     (if d > 10 then h
      else
        fold (\<lambda>j h'. if parent j = node
                      then build_hierarchy js (child j) (d + 1) (append_child node (child j) h')
                      else h')
             js
             (if map_of h node = None
              then AList.update node \<lparr>node_depth = d, node_children = []\<rparr> h else h))"
  by pat_completeness auto
termination
  by (relation "measure (\<lambda>(js, node, d, h). 11 - d)") auto

declare build_hierarchy.simps [simp del]

text \<open>The calls of \<open>build_hierarchy\<close> that pass the depth guard, in the order in which they
  are made, each with its node and depth: the visits.  The recursion does not depend on
  the dictionary.\<close>

function visits :: "sjoint list \<Rightarrow> string \<Rightarrow> nat \<Rightarrow> (string \<times> nat) list" where
  "visits js node d =
     (if d > 10 then []
      else (node, d) #
           concat (map (\<lambda>j. if parent j = node then visits js (child j) (d + 1) else []) js))"
  by pat_completeness auto
termination
  by (relation "measure (\<lambda>(js, node, d). 11 - d)") auto

declare visits.simps [simp del]

text \<open>The roots: the links that are no joint's child, or the first link when there is
  none; then one call per root, at depth 0, on the growing dictionary.\<close>

definition root_nodes :: "string list \<Rightarrow> sjoint list \<Rightarrow> string list" where
  "root_nodes ls js =
     (let all_children = set (map child js);
          roots = filter (\<lambda>l. l \<notin> all_children) ls
      in if roots = [] \<and> ls \<noteq> [] then [hd ls] else roots)"

definition hierarchy_of :: "string list \<Rightarrow> sjoint list \<Rightarrow> hierarchy" where
  "hierarchy_of ls js = fold (\<lambda>root h. build_hierarchy js root 0 h) (root_nodes ls js) []"

definition all_visits :: "string list \<Rightarrow> sjoint list \<Rightarrow> (string \<times> nat) list" where
  "all_visits ls js = concat (map (\<lambda>root. visits js root 0) (root_nodes ls js))"

definition first_visit :: "string \<Rightarrow> (string \<times> nat) list \<Rightarrow> nat option" where
  "first_visit n vs = (case filter (\<lambda>v. fst v = n) vs of [] \<Rightarrow> None | v # _ \<Rightarrow> Some (snd v))"

definition last_visit :: "string \<Rightarrow> (string \<times> nat) list \<Rightarrow> nat option" where
  "last_visit n vs = first_visit n (rev vs)"

definition depth_of :: "hierarchy \<Rightarrow> string \<Rightarrow> nat option" where
  "depth_of h n = map_option node_depth (map_of h n)"

section \<open>\<open>difflib\<close>\<close>

text \<open>
  \<open>analyze_code_changes\<close> calls \<open>difflib.ndiff\<close> of the Python standard library.  This
  section follows the library source (CPython 3.11): \<open>SequenceMatcher\<close> with its
  \<open>autojunk\<close> heuristic, and \<open>Differ\<close>.  Ratios are exact rationals where the library
  computes floats.
\<close>

subsection \<open>\<open>SequenceMatcher\<close>\<close>

text \<open>
  \<open>__chain_b\<close>: \<open>b2j\<close> maps an element to the indices at which it occurs in \<open>b\<close>, in
  increasing order.  Junk elements have no entry, and neither have the popular ones:
  those that occur more than \<open>n // 100 + 1\<close> times when \<open>b\<close> has \<open>n \<ge> 200\<close> elements.  The
  model gives the result of \<open>b2j.get(x, [])\<close>.
\<close>

definition indices_of :: "'a \<Rightarrow> 'a list \<Rightarrow> nat list" where
  "indices_of x b = filter (\<lambda>j. b ! j = x) [0 ..< length b]"

definition popular :: "'a list \<Rightarrow> 'a \<Rightarrow> bool" where
  "popular b x = (length b \<ge> 200 \<and> length (indices_of x b) > length b div 100 + 1)"

definition b2j :: "('a \<Rightarrow> bool) \<Rightarrow> 'a list \<Rightarrow> 'a \<Rightarrow> nat list" where
  "b2j isjunk b x = (if isjunk x \<or> popular b x then [] else indices_of x b)"

text \<open>
  \<open>find_longest_match\<close>.  \<open>inner_loop\<close> is the loop over the indices \<open>j\<close> of one row \<open>i\<close>,
  with its \<open>continue\<close> and its \<open>break\<close>; \<open>j2len\<close> is the dictionary of the row before,
  read with default 0 (and never at \<open>j - 1\<close> for \<open>j = 0\<close>), \<open>newj2len\<close> the one being built.
  \<open>longest_loop\<close> is the loop over the rows.  The four \<open>while\<close> loops that follow extend
  the match, first over elements that are not junk, then over junk.
\<close>

type_synonym match = "nat \<times> nat \<times> nat"

fun inner_loop ::
  "nat \<Rightarrow> nat \<Rightarrow> nat \<Rightarrow> (nat \<Rightarrow> nat) \<Rightarrow> nat list \<Rightarrow> (nat \<Rightarrow> nat) \<times> match \<Rightarrow> (nat \<Rightarrow> nat) \<times> match"
where
  "inner_loop i blo bhi j2len [] st = st"
| "inner_loop i blo bhi j2len (j # js) (newj2len, (besti, bestj, bestsize)) =
     (if j < blo then inner_loop i blo bhi j2len js (newj2len, (besti, bestj, bestsize))
      else if j \<ge> bhi then (newj2len, (besti, bestj, bestsize))
      else
        (let k = (if j = 0 then 0 else j2len (j - 1)) + 1 in
         inner_loop i blo bhi j2len js
           (newj2len(j := k),
            if k > bestsize then (i + 1 - k, j + 1 - k, k) else (besti, bestj, bestsize))))"

definition longest_loop ::
  "('a \<Rightarrow> nat list) \<Rightarrow> 'a list \<Rightarrow> nat \<Rightarrow> nat \<Rightarrow> nat \<Rightarrow> nat \<Rightarrow> (nat \<Rightarrow> nat) \<times> match" where
  "longest_loop b2j_get a alo ahi blo bhi =
     fold (\<lambda>i (j2len, best). inner_loop i blo bhi j2len (b2j_get (a ! i)) (\<lambda>_. 0, best))
          [alo ..< ahi] (\<lambda>_. 0, (alo, blo, 0))"

function extend_back ::
  "('a \<Rightarrow> bool) \<Rightarrow> 'a list \<Rightarrow> 'a list \<Rightarrow> nat \<Rightarrow> nat \<Rightarrow> match \<Rightarrow> match" where
  "extend_back P a b alo blo (besti, bestj, bestsize) =
     (if besti > alo \<and> bestj > blo \<and> P (b ! (bestj - 1)) \<and> a ! (besti - 1) = b ! (bestj - 1)
      then extend_back P a b alo blo (besti - 1, bestj - 1, bestsize + 1)
      else (besti, bestj, bestsize))"
  by pat_completeness auto
termination
  by (relation "measure (\<lambda>(P, a, b, alo, blo, besti, bestj, bestsize). besti)") auto

function extend_forward ::
  "('a \<Rightarrow> bool) \<Rightarrow> 'a list \<Rightarrow> 'a list \<Rightarrow> nat \<Rightarrow> nat \<Rightarrow> match \<Rightarrow> match" where
  "extend_forward P a b ahi bhi (besti, bestj, bestsize) =
     (if besti + bestsize < ahi \<and> bestj + bestsize < bhi \<and> P (b ! (bestj + bestsize)) \<and>
         a ! (besti + bestsize) = b ! (bestj + bestsize)
      then extend_forward P a b ahi bhi (besti, bestj, bestsize + 1)
      else (besti, bestj, bestsize))"
  by pat_completeness auto
termination
  by (relation "measure (\<lambda>(P, a, b, ahi, bhi, besti, bestj, bestsize). ahi - (besti + bestsize))")
    auto

declare extend_back.simps [simp del] extend_forward.simps [simp del]

definition find_longest_match ::
  "('a \<Rightarrow> bool) \<Rightarrow> 'a list \<Rightarrow> 'a list \<Rightarrow> nat \<Rightarrow> nat \<Rightarrow> nat \<Rightarrow> nat \<Rightarrow> match" where
  "find_longest_match isjunk a b alo ahi blo bhi =
     (let best0 = snd (longest_loop (b2j isjunk b) a alo ahi blo bhi);
          best1 = extend_back (\<lambda>x. \<not> isjunk x) a b alo blo best0;
          best2 = extend_forward (\<lambda>x. \<not> isjunk x) a b ahi bhi best1;
          best3 = extend_back isjunk a b alo blo best2
      in extend_forward isjunk a b ahi bhi best3)"


text \<open>
  The match found lies inside the region searched; the loop of \<open>get_matching_blocks\<close>
  terminates because of that.
\<close>

definition good_best :: "nat \<Rightarrow> nat \<Rightarrow> nat \<Rightarrow> nat \<Rightarrow> match \<Rightarrow> bool" where
  "good_best alo blo ub bhi m =
     (case m of (bi, bj, k) \<Rightarrow>
        alo \<le> bi \<and> blo \<le> bj \<and>
        (if k = 0 then bi = alo \<and> bj = blo else bi + k \<le> ub \<and> bj + k \<le> bhi))"

definition jbound :: "nat \<Rightarrow> nat \<Rightarrow> nat \<Rightarrow> (nat \<Rightarrow> nat) \<Rightarrow> bool" where
  "jbound m blo bhi f = (\<forall>j. f j \<le> m \<and> f j \<le> j + 1 - blo \<and> (0 < f j \<longrightarrow> j < bhi))"

lemma inner_loop_bounds:
  assumes "alo \<le> i" and "jbound (i - alo) blo bhi j2len"
    and "jbound (i + 1 - alo) blo bhi newj2len" and "good_best alo blo (i + 1) bhi best"
    and "inner_loop i blo bhi j2len js (newj2len, best) = (f, best')"
  shows "jbound (i + 1 - alo) blo bhi f \<and> good_best alo blo (i + 1) bhi best'"
  using assms(3,4,5)
proof (induction js arbitrary: newj2len best)
  case Nil
  then show ?case by simp
next
  case (Cons j js)
  obtain bi bj bk where best: "best = (bi, bj, bk)" by (cases best) auto
  show ?case
  proof (cases "j < blo")
    case True
    with Cons best show ?thesis by simp
  next
    case lo: False
    show ?thesis
    proof (cases "j \<ge> bhi")
      case True
      with lo Cons best show ?thesis by simp
    next
      case hi: False
      define k where "k = (if j = 0 then 0 else j2len (j - 1)) + 1"
      have "j2len (j - 1) \<le> i - alo"
        using assms(2) by (simp add: jbound_def)
      then have k1: "k \<le> i + 1 - alo"
        using assms(1) by (auto simp: k_def)
      have k2: "k \<le> j + 1 - blo"
      proof (cases "j = 0")
        case True
        with lo show ?thesis by (simp add: k_def)
      next
        case False
        have "j2len (j - 1) \<le> (j - 1) + 1 - blo"
          using assms(2) by (simp add: jbound_def)
        with False lo show ?thesis by (simp add: k_def)
      qed
      have k0: "0 < k" by (simp add: k_def)
      have nj: "jbound (i + 1 - alo) blo bhi (newj2len(j := k))"
        using Cons.prems(1) k1 k2 hi by (auto simp: jbound_def)
      have nb: "good_best alo blo (i + 1) bhi
          (if k > bk then (i + 1 - k, j + 1 - k, k) else (bi, bj, bk))"
        using Cons.prems(2) k1 k2 k0 assms(1) lo hi by (auto simp: good_best_def best)
      have "inner_loop i blo bhi j2len js
          (newj2len(j := k), if k > bk then (i + 1 - k, j + 1 - k, k) else (bi, bj, bk)) = (f, best')"
        using Cons.prems(3) lo hi by (simp add: best k_def Let_def split del: if_split cong: if_cong)
      from Cons.IH [OF nj nb this] show ?thesis .
    qed
  qed
qed

lemma good_best_mono: "good_best alo blo ub bhi m \<Longrightarrow> ub \<le> ub' \<Longrightarrow> good_best alo blo ub' bhi m"
  by (auto simp: good_best_def split: prod.splits if_splits)

lemma longest_loop_bounds:
  "jbound (ahi - alo) blo bhi (fst (longest_loop g a alo ahi blo bhi)) \<and>
   good_best alo blo ahi bhi (snd (longest_loop g a alo ahi blo bhi))"
proof (induction ahi)
  case 0
  show ?case by (simp add: longest_loop_def jbound_def good_best_def)
next
  case (Suc m)
  show ?case
  proof (cases "alo \<le> m")
    case False
    then show ?thesis by (simp add: longest_loop_def jbound_def good_best_def)
  next
    case True
    obtain f best where st: "longest_loop g a alo m blo bhi = (f, best)"
      by (cases "longest_loop g a alo m blo bhi") auto
    obtain f' best' where r: "inner_loop m blo bhi f (g (a ! m)) (\<lambda>_. 0, best) = (f', best')"
      by (cases "inner_loop m blo bhi f (g (a ! m)) (\<lambda>_. 0, best)") auto
    have step: "longest_loop g a alo (Suc m) blo bhi = (f', best')"
      using True st r by (simp add: longest_loop_def)
    have "jbound (m - alo) blo bhi f" "good_best alo blo m bhi best"
      using Suc st by simp_all
    moreover have "jbound (m + 1 - alo) blo bhi (\<lambda>_. 0)" by (simp add: jbound_def)
    moreover have "good_best alo blo (m + 1) bhi best"
      using \<open>good_best alo blo m bhi best\<close> by (rule good_best_mono) simp
    ultimately have "jbound (m + 1 - alo) blo bhi f' \<and> good_best alo blo (m + 1) bhi best'"
      using inner_loop_bounds [OF True _ _ _ r] by blast
    with step True show ?thesis by (simp add: Suc_diff_le)
  qed
qed

lemma extend_back_bounds:
  "good_best alo blo ahi bhi m \<Longrightarrow> good_best alo blo ahi bhi (extend_back P a b alo blo m)"
proof (induction P a b alo blo m rule: extend_back.induct)
  case (1 P a b alo blo besti bestj bestsize)
  show ?case
  proof (cases "besti > alo \<and> bestj > blo \<and> P (b ! (bestj - 1)) \<and> a ! (besti - 1) = b ! (bestj - 1)")
    case True
    have "good_best alo blo ahi bhi (besti - 1, bestj - 1, bestsize + 1)"
      using "1.prems" True by (auto simp: good_best_def split: if_splits)
    moreover have "extend_back P a b alo blo (besti, bestj, bestsize) = extend_back P a b alo blo (besti - 1, bestj - 1, bestsize + 1)"
      using True by (subst extend_back.simps) simp
    ultimately show ?thesis
      using "1.IH" [OF True] by simp
  next
    case False
    then have "extend_back P a b alo blo (besti, bestj, bestsize) = (besti, bestj, bestsize)"
      by (subst extend_back.simps) auto
    with "1.prems" show ?thesis by simp
  qed
qed

lemma extend_forward_bounds:
  "good_best alo blo ahi bhi m \<Longrightarrow> good_best alo blo ahi bhi (extend_forward P a b ahi bhi m)"
proof (induction P a b ahi bhi m rule: extend_forward.induct)
  case (1 P a b ahi bhi besti bestj bestsize)
  show ?case
  proof (cases "besti + bestsize < ahi \<and> bestj + bestsize < bhi \<and> P (b ! (bestj + bestsize)) \<and>
         a ! (besti + bestsize) = b ! (bestj + bestsize)")
    case True
    have "good_best alo blo ahi bhi (besti, bestj, bestsize + 1)"
      using "1.prems" True by (auto simp: good_best_def split: if_splits)
    moreover have "extend_forward P a b ahi bhi (besti, bestj, bestsize) = extend_forward P a b ahi bhi (besti, bestj, bestsize + 1)"
      using True by (subst extend_forward.simps) simp
    ultimately show ?thesis
      using "1.IH" [OF True] by simp
  next
    case False
    then have "extend_forward P a b ahi bhi (besti, bestj, bestsize) = (besti, bestj, bestsize)"
      by (subst extend_forward.simps) auto
    with "1.prems" show ?thesis by simp
  qed
qed

lemma find_longest_match_bounds:
  "good_best alo blo ahi bhi (find_longest_match isjunk a b alo ahi blo bhi)"
  unfolding find_longest_match_def Let_def
  by (intro extend_forward_bounds extend_back_bounds) (simp add: longest_loop_bounds)

lemma find_longest_match_range:
  assumes "find_longest_match isjunk a b alo ahi blo bhi = (i, j, k)" and "k \<noteq> 0"
  shows "alo \<le> i" "blo \<le> j" "i + k \<le> ahi" "j + k \<le> bhi"
  using find_longest_match_bounds [of alo blo ahi bhi isjunk a b] assms
  by (auto simp: good_best_def)

text \<open>
  \<open>get_matching_blocks\<close>.  \<open>matching_loop\<close> is the \<open>while queue\<close> loop; the head of the list
  is the end of the Python list, where \<open>pop\<close> and \<open>append\<close> work.  The blocks found are
  sorted, adjacent blocks are merged by \<open>collapse_loop\<close>, and the sentinel
  \<open>(la, lb, 0)\<close> is appended.
\<close>

function matching_loop ::
  "('a \<Rightarrow> bool) \<Rightarrow> 'a list \<Rightarrow> 'a list \<Rightarrow> (nat \<times> nat \<times> nat \<times> nat) list \<Rightarrow> match list \<Rightarrow> match list"
where
  "matching_loop isjunk a b [] blocks = blocks"
| "matching_loop isjunk a b ((alo, ahi, blo, bhi) # queue) blocks =
     (case find_longest_match isjunk a b alo ahi blo bhi of
        (i, j, k) \<Rightarrow>
          if k \<noteq> 0 then
            matching_loop isjunk a b
              ((if i + k < ahi \<and> j + k < bhi then [(i + k, ahi, j + k, bhi)] else []) @
               (if alo < i \<and> blo < j then [(alo, i, blo, j)] else []) @ queue)
              (blocks @ [(i, j, k)])
          else matching_loop isjunk a b queue blocks)"
  by pat_completeness auto
termination
proof (relation "measure (\<lambda>(isjunk, a, b, queue, blocks).
    sum_list (map (\<lambda>(alo, ahi, blo, bhi). 2 * (ahi - alo) + 1) queue))", goal_cases)
  case 1
  show ?case by simp
next
  case (2 isjunk a b alo ahi blo bhi queue blocks i y j k)
  then have f: "find_longest_match isjunk a b alo ahi blo bhi = (i, j, k)" and k: "k \<noteq> 0"
    by simp_all
  from find_longest_match_range [OF f k] k show ?case by auto
next
  case 3
  then show ?case by simp
qed

fun collapse_loop :: "match \<Rightarrow> match list \<Rightarrow> match list \<Rightarrow> match list" where
  "collapse_loop (i1, j1, k1) [] non_adjacent =
     (if k1 \<noteq> 0 then non_adjacent @ [(i1, j1, k1)] else non_adjacent)"
| "collapse_loop (i1, j1, k1) ((i2, j2, k2) # rest) non_adjacent =
     (if i1 + k1 = i2 \<and> j1 + k1 = j2 then collapse_loop (i1, j1, k1 + k2) rest non_adjacent
      else collapse_loop (i2, j2, k2) rest
             (if k1 \<noteq> 0 then non_adjacent @ [(i1, j1, k1)] else non_adjacent))"

definition get_matching_blocks :: "('a \<Rightarrow> bool) \<Rightarrow> 'a list \<Rightarrow> 'a list \<Rightarrow> match list" where
  "get_matching_blocks isjunk a b =
     (let la = length a; lb = length b;
          matching_blocks = sort (matching_loop isjunk a b [(0, la, 0, lb)] [])
      in collapse_loop (0, 0, 0) matching_blocks [] @ [(la, lb, 0)])"

text \<open>\<open>get_opcodes\<close>\<close>

datatype tag = Replace | Delete | Insert | Equal

type_synonym opcode = "tag \<times> nat \<times> nat \<times> nat \<times> nat"

fun opcodes_loop :: "nat \<Rightarrow> nat \<Rightarrow> match list \<Rightarrow> opcode list" where
  "opcodes_loop i j [] = []"
| "opcodes_loop i j ((ai, bj, sz) # rest) =
     (if i < ai \<and> j < bj then [(Replace, i, ai, j, bj)]
      else if i < ai then [(Delete, i, ai, j, bj)]
      else if j < bj then [(Insert, i, ai, j, bj)]
      else []) @
     (if sz \<noteq> 0 then [(Equal, ai, ai + sz, bj, bj + sz)] else []) @
     opcodes_loop (ai + sz) (bj + sz) rest"

definition get_opcodes :: "('a \<Rightarrow> bool) \<Rightarrow> 'a list \<Rightarrow> 'a list \<Rightarrow> opcode list" where
  "get_opcodes isjunk a b = opcodes_loop 0 0 (get_matching_blocks isjunk a b)"

text \<open>\<open>ratio\<close>, \<open>quick_ratio\<close> and \<open>real_quick_ratio\<close>\<close>

definition calculate_ratio :: "nat \<Rightarrow> nat \<Rightarrow> rat" where
  "calculate_ratio matches len = (if len \<noteq> 0 then 2 * of_nat matches / of_nat len else 1)"

definition ratio :: "('a \<Rightarrow> bool) \<Rightarrow> 'a list \<Rightarrow> 'a list \<Rightarrow> rat" where
  "ratio isjunk a b =
     calculate_ratio (sum_list (map (\<lambda>(i, j, k). k) (get_matching_blocks isjunk a b)))
       (length a + length b)"

fun quick_loop :: "('a \<Rightarrow> int) \<Rightarrow> ('a \<Rightarrow> int option) \<Rightarrow> 'a list \<Rightarrow> nat \<Rightarrow> nat" where
  "quick_loop fullbcount avail [] matches = matches"
| "quick_loop fullbcount avail (elt # rest) matches =
     (let numb = (case avail elt of Some n \<Rightarrow> n | None \<Rightarrow> fullbcount elt) in
      quick_loop fullbcount (avail(elt \<mapsto> numb - 1)) rest
        (if numb > 0 then matches + 1 else matches))"

definition quick_ratio :: "'a list \<Rightarrow> 'a list \<Rightarrow> rat" where
  "quick_ratio a b =
     calculate_ratio (quick_loop (\<lambda>elt. int (count_list b elt)) Map.empty a 0)
       (length a + length b)"

definition real_quick_ratio :: "'a list \<Rightarrow> 'a list \<Rightarrow> rat" where
  "real_quick_ratio a b = calculate_ratio (min (length a) (length b)) (length a + length b)"

subsection \<open>\<open>Differ\<close>\<close>

definition dump :: "char \<Rightarrow> string list \<Rightarrow> nat \<Rightarrow> nat \<Rightarrow> string list" where
  "dump tg x lo hi = map (\<lambda>i. tg # CHR '' '' # x ! i) [lo ..< hi]"

definition plain_replace ::
  "string list \<Rightarrow> nat \<Rightarrow> nat \<Rightarrow> string list \<Rightarrow> nat \<Rightarrow> nat \<Rightarrow> string list" where
  "plain_replace a alo ahi b blo bhi =
     (if bhi - blo < ahi - alo then dump CHR ''+'' b blo bhi @ dump CHR ''-'' a alo ahi
      else dump CHR ''-'' a alo ahi @ dump CHR ''+'' b blo bhi)"

text \<open>
  \<open>_fancy_replace\<close>.  The search runs over all pairs of lines, \<open>j\<close> in the outer loop; its
  state is \<open>best_ratio\<close>, the pair \<open>(best_i, best_j)\<close> once one is set, and the first pair of
  identical lines \<open>(eqi, eqj)\<close> once one is seen.  The cutoff is 0.75 and the initial
  \<open>best_ratio\<close> 0.74.
\<close>

type_synonym search_state = "rat \<times> (nat \<times> nat) option \<times> (nat \<times> nat) option"

definition search_step ::
  "(char \<Rightarrow> bool) \<Rightarrow> string list \<Rightarrow> string list \<Rightarrow> nat \<times> nat \<Rightarrow> search_state \<Rightarrow> search_state" where
  "search_step charjunk a b p st =
     (case (p, st) of ((i, j), (best_ratio, best, eq)) \<Rightarrow>
        if a ! i = b ! j then (best_ratio, best, if eq = None then Some (i, j) else eq)
        else if real_quick_ratio (a ! i) (b ! j) > best_ratio \<and>
                quick_ratio (a ! i) (b ! j) > best_ratio \<and>
                ratio charjunk (a ! i) (b ! j) > best_ratio
        then (ratio charjunk (a ! i) (b ! j), Some (i, j), eq)
        else (best_ratio, best, eq))"

definition fancy_search ::
  "(char \<Rightarrow> bool) \<Rightarrow> string list \<Rightarrow> nat \<Rightarrow> nat \<Rightarrow> string list \<Rightarrow> nat \<Rightarrow> nat \<Rightarrow> search_state" where
  "fancy_search charjunk a alo ahi b blo bhi =
     fold (search_step charjunk a b)
          (concat (map (\<lambda>j. map (\<lambda>i. (i, j)) [alo ..< ahi]) [blo ..< bhi]))
          (74 / 100, None, None)"

text \<open>The pair of lines to synchronise on, and whether the two lines are identical.\<close>

definition sync_point :: "search_state \<Rightarrow> ((nat \<times> nat) \<times> bool) option" where
  "sync_point st =
     (case st of (best_ratio, best, eq) \<Rightarrow>
        if best_ratio < 75 / 100 then map_option (\<lambda>p. (p, True)) eq
        else map_option (\<lambda>p. (p, False)) best)"

text \<open>The lines for one pair of similar lines: \<open>_qformat\<close> on the tags built from the
  opcodes of the two lines.\<close>

definition keep_original_ws :: "string \<Rightarrow> string \<Rightarrow> string" where
  "keep_original_ws s tag_s =
     map (\<lambda>(c, tag_c). if tag_c = CHR '' '' \<and> is_space c then c else tag_c) (zip s tag_s)"

definition rstrip :: "string \<Rightarrow> string" where
  "rstrip s = rev (dropWhile is_space (rev s))"

definition tags_step :: "opcode \<Rightarrow> string \<times> string \<Rightarrow> string \<times> string" where
  "tags_step oc ts =
     (case (oc, ts) of ((tg, ai1, ai2, bj1, bj2), (atags, btags)) \<Rightarrow>
        let la = ai2 - ai1; lb = bj2 - bj1 in
        case tg of
          Replace \<Rightarrow> (atags @ replicate la CHR ''^'', btags @ replicate lb CHR ''^'')
        | Delete \<Rightarrow> (atags @ replicate la CHR ''-'', btags)
        | Insert \<Rightarrow> (atags, btags @ replicate lb CHR ''+'')
        | Equal \<Rightarrow> (atags @ replicate la CHR '' '', btags @ replicate lb CHR '' ''))"

definition qformat :: "string \<Rightarrow> string \<Rightarrow> string \<Rightarrow> string \<Rightarrow> string list" where
  "qformat aline bline atags btags =
     (let atags' = rstrip (keep_original_ws aline atags);
          btags' = rstrip (keep_original_ws bline btags)
      in [''- '' @ aline] @
         (if atags' \<noteq> [] then [''? '' @ atags' @ [CHR 0x0A]] else []) @
         [''+ '' @ bline] @
         (if btags' \<noteq> [] then [''? '' @ btags' @ [CHR 0x0A]] else []))"

definition intraline :: "(char \<Rightarrow> bool) \<Rightarrow> string \<Rightarrow> string \<Rightarrow> string list" where
  "intraline charjunk aelt belt =
     (case fold tags_step (get_opcodes charjunk aelt belt) ([], []) of
        (atags, btags) \<Rightarrow> qformat aelt belt atags btags)"


text \<open>The indices the search keeps lie in the ranges it runs over.\<close>

definition in_ranges :: "nat \<Rightarrow> nat \<Rightarrow> nat \<Rightarrow> nat \<Rightarrow> (nat \<times> nat) option \<Rightarrow> bool" where
  "in_ranges alo ahi blo bhi p =
     (case p of None \<Rightarrow> True | Some (i, j) \<Rightarrow> alo \<le> i \<and> i < ahi \<and> blo \<le> j \<and> j < bhi)"

lemma search_fold_ranges:
  assumes "\<forall>p\<in>set ps. in_ranges alo ahi blo bhi (Some p)"
    and "in_ranges alo ahi blo bhi (fst (snd st))" and "in_ranges alo ahi blo bhi (snd (snd st))"
  shows "in_ranges alo ahi blo bhi (fst (snd (fold (search_step charjunk a b) ps st))) \<and>
     in_ranges alo ahi blo bhi (snd (snd (fold (search_step charjunk a b) ps st)))"
  using assms
proof (induction ps arbitrary: st)
  case Nil
  then show ?case by simp
next
  case (Cons p ps)
  obtain r best eq where st: "st = (r, best, eq)" by (cases st) auto
  obtain i j where p: "p = (i, j)" by (cases p) auto
  have "in_ranges alo ahi blo bhi (fst (snd (search_step charjunk a b p st)))"
    "in_ranges alo ahi blo bhi (snd (snd (search_step charjunk a b p st)))"
    using Cons.prems by (auto simp: search_step_def st p)
  with Cons.IH [of "search_step charjunk a b p st"] Cons.prems(1) show ?case by simp
qed

lemma sync_point_range:
  assumes "sync_point (fancy_search charjunk a alo ahi b blo bhi) = Some ((i, j), idt)"
  shows "alo \<le> i \<and> i < ahi \<and> blo \<le> j \<and> j < bhi"
proof -
  let ?st = "fancy_search charjunk a alo ahi b blo bhi"
  have "in_ranges alo ahi blo bhi (fst (snd ?st)) \<and> in_ranges alo ahi blo bhi (snd (snd ?st))"
    unfolding fancy_search_def
    by (rule search_fold_ranges) (auto simp: in_ranges_def)
  with assms show ?thesis
    by (cases ?st) (auto simp: sync_point_def in_ranges_def split: if_splits)
qed

text \<open>
  \<open>_fancy_replace\<close> and \<open>_fancy_helper\<close>.  Without a pair to synchronise on, the block is
  dumped by \<open>_plain_replace\<close>.  (A \<open>best_ratio\<close> of at least 0.75 always comes with its pair,
  so the case \<open>None\<close> is the one where no pair is close and no two lines are identical.)
\<close>

function fancy_replace ::
    "(char \<Rightarrow> bool) \<Rightarrow> string list \<Rightarrow> nat \<Rightarrow> nat \<Rightarrow> string list \<Rightarrow> nat \<Rightarrow> nat \<Rightarrow> string list"
  and fancy_helper ::
    "(char \<Rightarrow> bool) \<Rightarrow> string list \<Rightarrow> nat \<Rightarrow> nat \<Rightarrow> string list \<Rightarrow> nat \<Rightarrow> nat \<Rightarrow> string list"
where
  "fancy_replace charjunk a alo ahi b blo bhi =
     (case sync_point (fancy_search charjunk a alo ahi b blo bhi) of
        None \<Rightarrow> plain_replace a alo ahi b blo bhi
      | Some ((best_i, best_j), identical) \<Rightarrow>
          fancy_helper charjunk a alo best_i b blo best_j @
          (if identical then [''  '' @ a ! best_i]
           else intraline charjunk (a ! best_i) (b ! best_j)) @
          fancy_helper charjunk a (best_i + 1) ahi b (best_j + 1) bhi)"
| "fancy_helper charjunk a alo ahi b blo bhi =
     (if alo < ahi then
        (if blo < bhi then fancy_replace charjunk a alo ahi b blo bhi
         else dump CHR ''-'' a alo ahi)
      else if blo < bhi then dump CHR ''+'' b blo bhi
      else [])"
  by pat_completeness auto
termination
proof (relation "measure (\<lambda>x. case x of
      Inl (charjunk, a, alo, ahi, b, blo, bhi) \<Rightarrow> 2 * ((ahi - alo) + (bhi - blo))
    | Inr (charjunk, a, alo, ahi, b, blo, bhi) \<Rightarrow> 2 * ((ahi - alo) + (bhi - blo)) + 1)",
    goal_cases)
  case 1
  show ?case by simp
next
  case (2 charjunk a alo ahi b blo bhi x2 p identical best_i best_j)
  then have "sync_point (fancy_search charjunk a alo ahi b blo bhi) = Some ((best_i, best_j), identical)"
    by simp
  from sync_point_range [OF this] show ?case by simp arith
next
  case (3 charjunk a alo ahi b blo bhi x2 p identical best_i best_j)
  then have "sync_point (fancy_search charjunk a alo ahi b blo bhi) = Some ((best_i, best_j), identical)"
    by simp
  from sync_point_range [OF this] show ?case by simp arith
next
  case 4
  then show ?case by simp
qed

declare fancy_replace.simps [simp del] fancy_helper.simps [simp del]

text \<open>\<open>Differ.compare\<close>, and \<open>ndiff\<close> with its defaults: no line junk, blanks and tabs as
  character junk.\<close>

definition compare :: "(string \<Rightarrow> bool) \<Rightarrow> (char \<Rightarrow> bool) \<Rightarrow> string list \<Rightarrow> string list \<Rightarrow> string list" where
  "compare linejunk charjunk a b =
     concat (map (\<lambda>(tg, alo, ahi, blo, bhi).
                    case tg of
                      Replace \<Rightarrow> fancy_replace charjunk a alo ahi b blo bhi
                    | Delete \<Rightarrow> dump CHR ''-'' a alo ahi
                    | Insert \<Rightarrow> dump CHR ''+'' b blo bhi
                    | Equal \<Rightarrow> dump CHR '' '' a alo ahi)
                 (get_opcodes linejunk a b))"

definition IS_CHARACTER_JUNK :: "char \<Rightarrow> bool" where
  "IS_CHARACTER_JUNK ch = (ch \<in> set [CHR '' '', CHR 0x09])"

definition ndiff :: "string list \<Rightarrow> string list \<Rightarrow> string list" where
  "ndiff a b = compare (\<lambda>_. False) IS_CHARACTER_JUNK a b"

subsection \<open>Notions for the proof about equal texts\<close>

text \<open>The length of the run of lines that are not popular, ending at line \<open>i\<close>.\<close>

fun clean_run :: "'a list \<Rightarrow> nat \<Rightarrow> nat" where
  "clean_run a 0 = (if popular a (a ! 0) then 0 else 1)"
| "clean_run a (Suc i) = (if popular a (a ! Suc i) then 0 else clean_run a i + 1)"

text \<open>The value the inner loop stores for column \<open>j\<close>.\<close>

definition cell :: "(nat \<Rightarrow> nat) \<Rightarrow> nat \<Rightarrow> nat" where
  "cell j2len j = (if j = 0 then 0 else j2len (j - 1)) + 1"

text \<open>What holds after the rows below \<open>m\<close> when both sequences are the same: the table
  entries are bounded by the runs and exact on the diagonal, and the best match lies on
  the diagonal and is as long as every run seen.\<close>

definition row_ok :: "'a list \<Rightarrow> nat \<Rightarrow> (nat \<Rightarrow> nat) \<Rightarrow> bool" where
  "row_ok a m f =
     ((\<forall>j. f j \<le> (if m = 0 then 0 else clean_run a (m - 1))) \<and>
      (\<forall>j. f j \<le> clean_run a j) \<and>
      (m \<noteq> 0 \<longrightarrow> f (m - 1) = clean_run a (m - 1)))"

definition diag_ok :: "'a list \<Rightarrow> nat \<Rightarrow> match \<Rightarrow> bool" where
  "diag_ok a m best =
     (case best of (bi, bj, bk) \<Rightarrow> bi = bj \<and> (\<forall>i<m. clean_run a i \<le> bk))"


section \<open>The change analysis\<close>

text \<open>\<open>str.splitlines\<close>: a line ends at \<open>\n\<close>, \<open>\r\<close>, \<open>\r\n\<close>, \<open>\v\<close>, \<open>\f\<close>, the separators 0x1C to 0x1E
  and 0x85; the line ends are dropped, and a text that ends with one has no empty last
  line.\<close>

definition is_linebreak :: "char \<Rightarrow> bool" where
  "is_linebreak c =
     (c \<in> set [CHR 0x0A, CHR 0x0B, CHR 0x0C, CHR 0x0D, CHR 0x1C, CHR 0x1D, CHR 0x1E, CHR 0x85])"

fun splitlines_acc :: "string \<Rightarrow> string \<Rightarrow> string list" where
  "splitlines_acc cur [] = (if cur = [] then [] else [rev cur])"
| "splitlines_acc cur (c # cs) =
     (if c = CHR 0x0D then
        (case cs of
           d # ds \<Rightarrow>
             if d = CHR 0x0A then rev cur # splitlines_acc [] ds
             else rev cur # splitlines_acc [] cs
         | [] \<Rightarrow> rev cur # splitlines_acc [] cs)
      else if is_linebreak c then rev cur # splitlines_acc [] cs
      else splitlines_acc (c # cur) cs)"

definition splitlines :: "string \<Rightarrow> string list" where
  "splitlines s = splitlines_acc [] s"

definition startswith :: "string \<Rightarrow> string \<Rightarrow> bool" where
  "startswith s p = (take (length p) s = p)"

record changes =
  added_lines :: nat
  removed_lines :: nat
  modified_lines :: nat
  unchanged_lines :: nat
  changes_by_type :: "(string \<times> nat) list"
  line_changes :: "(char \<times> string) list"

text \<open>The tests of the first loop for an added and for a removed line of the diff.\<close>

definition is_added :: "string \<Rightarrow> bool" where
  "is_added line = (startswith line ''+ '' \<and> \<not> startswith line ''++'')"

definition is_removed :: "string \<Rightarrow> bool" where
  "is_removed line = (startswith line ''- '' \<and> \<not> startswith line ''--'')"

text \<open>The test of the first loop for an unchanged line, reached when the two tests
  before it fail.\<close>

definition is_unchanged :: "string \<Rightarrow> bool" where
  "is_unchanged line = startswith line ''  ''"

text \<open>The body of the first loop, over the lines of the diff.\<close>

definition count_line :: "string \<Rightarrow> changes \<Rightarrow> changes" where
  "count_line line ch =
     (if is_added line then
        ch\<lparr>added_lines := added_lines ch + 1,
           line_changes := line_changes ch @ [(CHR ''+'', drop 2 line)]\<rparr>
      else if is_removed line then
        ch\<lparr>removed_lines := removed_lines ch + 1,
           line_changes := line_changes ch @ [(CHR ''-'', drop 2 line)]\<rparr>
      else if startswith line ''  '' then ch\<lparr>unchanged_lines := unchanged_lines ch + 1\<rparr>
      else if startswith line ''? '' then ch\<lparr>modified_lines := modified_lines ch + 1\<rparr>
      else ch)"

text \<open>\<open>counter[key] += 1\<close> on a \<open>Counter\<close>, kept as an association list in insertion order.\<close>

definition increment :: "string \<Rightarrow> (string \<times> nat) list \<Rightarrow> (string \<times> nat) list" where
  "increment key counter =
     AList.update key ((case map_of counter key of Some n \<Rightarrow> n | None \<Rightarrow> 0) + 1) counter"

text \<open>The element kind of a changed line: the first marker, in the order of the
  \<open>if\<close>/\<open>elif\<close> chain, that the lower-cased line contains.\<close>

definition element_kind :: "string \<Rightarrow> string option" where
  \<open>element_kind line =
     (let line_lower = lower line in
      if contains ''<link'' line_lower then Some ''link''
      else if contains ''<joint'' line_lower then Some ''joint''
      else if contains ''<visual'' line_lower then Some ''visual''
      else if contains ''<collision'' line_lower then Some ''collision''
      else if contains ''<origin'' line_lower then Some ''origin''
      else if contains ''<geometry'' line_lower then Some ''geometry''
      else if contains ''<material'' line_lower then Some ''material''
      else if contains ''name="'' line_lower then Some ''name''
      else if contains ''xyz="'' line_lower \<or> contains ''rpy="'' line_lower then Some ''pose''
      else None)\<close>

text \<open>The body of the second loop, over the first 100 entries of \<open>line_changes\<close>.\<close>

definition classify_change :: "char \<times> string \<Rightarrow> (string \<times> nat) list \<Rightarrow> (string \<times> nat) list" where
  "classify_change change counter =
     (case element_kind (snd change) of Some key \<Rightarrow> increment key counter | None \<Rightarrow> counter)"

definition analyze_diff :: "string list \<Rightarrow> changes" where
  "analyze_diff diff =
     (let ch = fold count_line diff
                 \<lparr>added_lines = 0, removed_lines = 0, modified_lines = 0, unchanged_lines = 0,
                  changes_by_type = [], line_changes = []\<rparr>
      in ch\<lparr>changes_by_type := fold classify_change (take 100 (line_changes ch)) []\<rparr>)"

text \<open>\<open>analyze_code_changes\<close>: the empty dictionary, here \<open>None\<close>, when either text is empty.\<close>

definition analyze_code_changes :: "string \<Rightarrow> string \<Rightarrow> changes option" where
  "analyze_code_changes old_content new_content =
     (if old_content = [] \<or> new_content = [] then None
      else Some (analyze_diff (ndiff (splitlines old_content) (splitlines new_content))))"

subsection \<open>Notions for the proof about the line counts\<close>

text \<open>Blocks in increasing order, from \<open>(i, j)\<close> on: each starts where the one before it
  ended or later; in a \<open>chain\<close> no block is empty and the last ends inside the region.\<close>

fun wchain :: "nat \<Rightarrow> nat \<Rightarrow> match list \<Rightarrow> bool" where
  "wchain i j [] = True"
| "wchain i j ((bi, bj, k) # rest) = (i \<le> bi \<and> j \<le> bj \<and> wchain (bi + k) (bj + k) rest)"

fun chain :: "nat \<Rightarrow> nat \<Rightarrow> nat \<Rightarrow> nat \<Rightarrow> match list \<Rightarrow> bool" where
  "chain i j ahi bhi [] = (i \<le> ahi \<and> j \<le> bhi)"
| "chain i j ahi bhi ((bi, bj, k) # rest) =
     (i \<le> bi \<and> j \<le> bj \<and> 0 < k \<and> chain (bi + k) (bj + k) ahi bhi rest)"

text \<open>The blocks that the queue loop finds in a region, listed in increasing order.\<close>

function blocks_rec ::
  "('a \<Rightarrow> bool) \<Rightarrow> 'a list \<Rightarrow> 'a list \<Rightarrow> nat \<Rightarrow> nat \<Rightarrow> nat \<Rightarrow> nat \<Rightarrow> match list" where
  "blocks_rec isjunk a b alo ahi blo bhi =
     (case find_longest_match isjunk a b alo ahi blo bhi of
        (i, j, k) \<Rightarrow>
          if k \<noteq> 0 then
            (if alo < i \<and> blo < j then blocks_rec isjunk a b alo i blo j else []) @
            [(i, j, k)] @
            (if i + k < ahi \<and> j + k < bhi then blocks_rec isjunk a b (i + k) ahi (j + k) bhi
             else [])
          else [])"
  by pat_completeness auto
termination
proof (relation "measure (\<lambda>(isjunk, a, b, alo, ahi, blo, bhi). ahi - alo)", goal_cases)
  case 1
  show ?case by simp
next
  case (2 isjunk a b alo ahi blo bhi i y j k)
  then have f: "find_longest_match isjunk a b alo ahi blo bhi = (i, j, k)" and k: "k \<noteq> 0"
    by simp_all
  from find_longest_match_range [OF f k] k 2 show ?case by auto
next
  case (3 isjunk a b alo ahi blo bhi i y j k)
  then have f: "find_longest_match isjunk a b alo ahi blo bhi = (i, j, k)" and k: "k \<noteq> 0"
    by simp_all
  from find_longest_match_range [OF f k] k 3 show ?case by auto
qed

declare blocks_rec.simps [simp del]

text \<open>Where a list of blocks ends.\<close>

fun end_a :: "nat \<Rightarrow> match list \<Rightarrow> nat" where
  "end_a i [] = i"
| "end_a i ((bi, bj, k) # rest) = end_a (bi + k) rest"

fun end_b :: "nat \<Rightarrow> match list \<Rightarrow> nat" where
  "end_b j [] = j"
| "end_b j ((bi, bj, k) # rest) = end_b (bj + k) rest"

text \<open>The lines \<open>Differ.compare\<close> yields for one opcode.\<close>

definition render :: "(char \<Rightarrow> bool) \<Rightarrow> string list \<Rightarrow> string list \<Rightarrow> opcode \<Rightarrow> string list" where
  "render charjunk a b oc =
     (case oc of (tg, alo, ahi, blo, bhi) \<Rightarrow>
        case tg of
          Replace \<Rightarrow> fancy_replace charjunk a alo ahi b blo bhi
        | Delete \<Rightarrow> dump CHR ''-'' a alo ahi
        | Insert \<Rightarrow> dump CHR ''+'' b blo bhi
        | Equal \<Rightarrow> dump CHR '' '' a alo ahi)"

text \<open>The lines of a diff that come from the first and from the second sequence.\<close>

definition from_a :: "string list \<Rightarrow> nat" where
  "from_a d = length (filter is_removed d) + length (filter is_unchanged d)"

definition from_b :: "string list \<Rightarrow> nat" where
  "from_b d = length (filter is_added d) + length (filter is_unchanged d)"

section \<open>Lemmas about matching and searching\<close>

lemma char_eq_refl [simp]: "char_eq ic c c"
  by (simp add: char_eq_def)

lemma strip_lit_append [simp]: "strip_lit ic l (l @ s) = Some s"
  by (induction l) simp_all









































lemma decimal_unsigned: "decimal t \<Longrightarrow> float t = unsigned_float t"
  by (cases t) (auto simp: float_def decimal_def is_digit_def)

section \<open>Properties of geometry and pose extraction\<close>



text \<open>
  C2.  The claim: the structural parser never raises, and a numeric attribute that
  matches a tag pattern but fails numeric conversion is replaced by the documented
  default.  The code calls \<open>float\<close> on every token of the matched attribute without a
  handler: a size attribute that is a lone \<open>.\<close> matches \<open>[\d\.\s]+\<close>, \<open>float('.')\<close> raises
  \<open>ValueError\<close>, and the exception leaves \<open>parse_geometry\<close> and \<open>parse_urdf\<close>, in
  \<open>urdf-3d-viewer.py\<close> and in the embedded script alike.
\<close>

theorem malformed_size_raises:
  \<open>re_search False box_pattern ''<box size="."/>'' = Some ([(1, ''.'')], ''/>'') \<and>
   parse_geometry False ''<box size="."/>'' = Inl ValueError \<and>
   parse_geometry True ''<box size="."/>'' = Inl ValueError \<and>
   parse_urdf False ''<link name="a"><visual><box size="."/></visual></link>'' = Inl ValueError \<and>
   parse_urdf True ''<link name="a"><visual><box size="."/></visual></link>'' = Inl ValueError\<close>
  by code_simp




text \<open>
  C4, as the claim states it, fails: a box whose size has fewer than three numbers is
  passed over, and a cylinder or sphere tag of the same fragment is returned instead.
\<close>

theorem short_box_then_sphere:
  \<open>re_search False box_pattern ''<box size="1 2"/><sphere radius="3"/>'' =
      Some ([(1, ''1 2'')], ''/><sphere radius="3"/>'') \<and>
   map_float (split ''1 2'') = Inr [1, 2] \<and>
   parse_geometry False ''<box size="1 2"/><sphere radius="3"/>'' = Inr (Sphere 3) \<and>
   parse_geometry True ''<box size="1 2"/><sphere radius="3"/>'' = Inr (Sphere 3)\<close>
  by code_simp

text \<open>
  C4, amended.  For every fragment whose first box tag has a size attribute that
  converts to fewer than three numbers, and in which neither the cylinder pattern nor
  the sphere pattern matches, geometry extraction returns the default box
  \<open>{0.1, 0.1, 0.1}\<close>, whatever the numbers in the attribute.
\<close>

theorem short_box_falls_back_to_default:
  assumes "re_search ic box_pattern content = Some (m, rest)"
    and "map_float (split (group_text m 1)) = Inr sizes"
    and "length sizes < 3"
    and "re_search ic cylinder_pattern content = None"
    and "re_search ic sphere_pattern content = None"
  shows "parse_geometry ic content = Inr (Box [1 / 10, 1 / 10, 1 / 10])"
  using assms
  by (simp add: parse_geometry_def cylinder_step_def sphere_step_def bind_def default_box_def)

theorem short_box_falls_back_to_default_witness:
  \<open>re_search False box_pattern ''<box size="1 2"/>'' = Some ([(1, ''1 2'')], ''/>'') \<and>
   map_float (split ''1 2'') = Inr [1, 2] \<and>
   re_search False cylinder_pattern ''<box size="1 2"/>'' = None \<and>
   re_search False sphere_pattern ''<box size="1 2"/>'' = None \<and>
   parse_geometry False ''<box size="1 2"/>'' = Inr (Box [1 / 10, 1 / 10, 1 / 10])\<close>
proof -
  have a: \<open>re_search False box_pattern ''<box size="1 2"/>'' = Some ([(1, ''1 2'')], ''/>'')\<close>
    by code_simp
  have b: \<open>map_float (split (group_text [(1, ''1 2'')] 1)) = Inr [1, 2]\<close>
    by code_simp
  have b': \<open>map_float (split ''1 2'') = Inr [1, 2]\<close>
    by code_simp
  have c: \<open>re_search False cylinder_pattern ''<box size="1 2"/>'' = None\<close>
    by code_simp
  have d: \<open>re_search False sphere_pattern ''<box size="1 2"/>'' = None\<close>
    by code_simp
  have e: \<open>parse_geometry False ''<box size="1 2"/>'' = Inr (Box [1 / 10, 1 / 10, 1 / 10])\<close>
    using short_box_falls_back_to_default [OF a b _ c d] by simp
  show ?thesis
    using a b' c d e by simp
qed

section \<open>Properties of the structural parser\<close>

lemma joint_of_match_cases:
  assumes "joint_of_match embedded m = Inr j"
  shows "(case j of None \<Rightarrow> defective m
          | Some x \<Rightarrow> \<not> defective m \<and> (joint_parent x, joint_child x) = joint_ends m)"
  using assms
  by (auto simp: joint_of_match_def defective_def joint_ends_def bind_def Let_def
      split: option.splits sum.splits prod.splits)

lemma joint_loop_sound:
  assumes "joint_loop embedded ms = Inr js"
  shows "map (\<lambda>j. (joint_parent j, joint_child j)) js =
     map joint_ends (filter (\<lambda>m. \<not> defective m) ms)"
  using assms
proof (induction ms arbitrary: js)
  case Nil
  then show ?case by simp
next
  case (Cons m ms)
  from Cons.prems obtain j js' where j: "joint_of_match embedded m = Inr j"
    and js': "joint_loop embedded ms = Inr js'"
    and js: "js = (case j of Some x \<Rightarrow> x # js' | None \<Rightarrow> js')"
    by (auto simp: bind_def split: sum.splits)
  show ?case
    using joint_of_match_cases [OF j] Cons.IH [OF js']
    by (cases j) (simp_all add: js)
qed

text \<open>
  In \<open>URDF3DViewer.parse_urdf\<close>, of both files, the joints of the model are the joint
  matches that are not defective, in document order, each with the parent and the child
  link of its own content; their number is the number of joint matches minus the number
  of defective ones.
\<close>

lemma parse_urdf_drops_defective_joints:
  assumes "parse_urdf embedded urdf_content = Inr mdl"
  shows "map (\<lambda>j. (joint_parent j, joint_child j)) (joints mdl) =
       map joint_ends (filter (\<lambda>m. \<not> defective m) (finditer False joint_pattern urdf_content)) \<and>
     length (joints mdl) =
       length (finditer False joint_pattern urdf_content) -
       length (filter defective (finditer False joint_pattern urdf_content))"
proof (cases "urdf_content = []")
  case True
  have "finditer False joint_pattern [] = []" by code_simp
  with True assms show ?thesis by (auto simp: parse_urdf_def)
next
  case False
  let ?ms = "finditer False joint_pattern urdf_content"
  from False assms obtain js where js: "joint_loop embedded ?ms = Inr js"
    and m: "joints mdl = js"
    by (auto simp: parse_urdf_def bind_def split: sum.splits)
  have a: "map (\<lambda>j. (joint_parent j, joint_child j)) js =
      map joint_ends (filter (\<lambda>m. \<not> defective m) ?ms)"
    by (rule joint_loop_sound [OF js])
  have "length js = length (filter (\<lambda>m. \<not> defective m) ?ms)"
    using arg_cong [OF a, of length] by simp
  moreover have "length (filter (\<lambda>m. \<not> defective m) ?ms) + length (filter defective ?ms) =
      length ?ms"
    using sum_length_filter_compl [of defective ?ms] by simp
  ultimately show ?thesis using a m by simp
qed

lemma parse_urdf_drops_defective_joints_example:
  \<open>parse_urdf False
     ''<joint name="1"><child link="a"/></joint><joint name="2"><parent link="b"/><child link="c"/></joint>'' =
     Inr \<lparr>links = [],
          joints = [\<lparr>joint_name = None, joint_parent = ''b'', joint_child = ''c'',
                     joint_origin = \<lparr>xyz = [0, 0, 0], rpy = [0, 0, 0]\<rparr>\<rparr>]\<rparr> \<and>
   map defective (finditer False joint_pattern
     ''<joint name="1"><child link="a"/></joint><joint name="2"><parent link="b"/><child link="c"/></joint>'') =
     [True, False]\<close>
  by code_simp

text \<open>
  C8.  The claim: a joint declaration that lacks a parent or a child sub-tag is left
  out, and each such joint lowers the joint count by exactly one.  \<open>parse_urdf\<close> does
  that, as shown above; \<open>parse_urdf_structure\<close> does not.  Its single pattern lets \<open>.*?\<close> run past
  \<open></joint>\<close>: of two defective joints, the first with only a parent and the second
  with only a child, it makes one joint, under the name of the first.
\<close>

theorem structure_joint_spans_declarations:
  \<open>parse_urdf_structure
      ''<joint name="j1"><parent link="a"/></joint><joint name="j2"><child link="b"/></joint>'' =
     \<lparr>slinks = [], sjoints = [\<lparr>name = ''j1'', parent = ''a'', child = ''b''\<rparr>]\<rparr> \<and>
   parse_urdf False
      ''<joint name="j1"><parent link="a"/></joint><joint name="j2"><child link="b"/></joint>'' =
     Inr \<lparr>links = [], joints = []\<rparr>\<close>
  by code_simp

text \<open>
  C10.  In the embedded script, a link whose \<open><visual>\<close> block yields an origin with
  \<open>xyz\<close> equal to \<open>[0.0, 0.0, 0.0]\<close> gets the all-zero default pose, whatever the \<open>rpy\<close> of
  that origin: the test that lets the visual origin replace the default compares the
  translation only.
\<close>

theorem rotation_only_visual_origin_discarded:
  assumes "re_search True visual_pattern (group_text m 2) = Some (vm, rest)"
    and "parse_origin True (group_text vm 1) = Inr visual_origin"
    and "xyz visual_origin = [0, 0, 0]"
    and "link_of_match True m = Inr l"
  shows "link_origin l = \<lparr>xyz = [0, 0, 0], rpy = [0, 0, 0]\<rparr>"
  using assms
  by (auto simp add: link_of_match_def bind_def Let_def zero_pose_def zero3_def
      split: sum.splits)

theorem rotation_only_visual_origin_discarded_witness:
  \<open>finditer False link_pattern
      ''<link name="a"><visual><origin xyz="0 0 0" rpy="0 0 1.5"/></visual></link>'' =
     [[(1, ''a''), (2, ''><visual><origin xyz="0 0 0" rpy="0 0 1.5"/></visual>'')]] \<and>
   re_search True visual_pattern ''><visual><origin xyz="0 0 0" rpy="0 0 1.5"/></visual>'' =
     Some ([(1, ''<origin xyz="0 0 0" rpy="0 0 1.5"/>'')], []) \<and>
   parse_origin True ''<origin xyz="0 0 0" rpy="0 0 1.5"/>'' =
     Inr \<lparr>xyz = [0, 0, 0], rpy = [0, 0, 3 / 2]\<rparr> \<and>
   link_origin \<lparr>link_name = ''a'', link_geometry = default_box,
       link_origin = \<lparr>xyz = [0, 0, 0], rpy = [0, 0, 0]\<rparr>, link_type = ''default''\<rparr> =
     \<lparr>xyz = [0, 0, 0], rpy = [0, 0, 0]\<rparr> \<and>
   parse_urdf True
      ''<link name="a"><visual><origin xyz="0 0 0" rpy="0 0 1.5"/></visual></link>'' =
     Inr \<lparr>links = [\<lparr>link_name = ''a'', link_geometry = default_box,
                       link_origin = \<lparr>xyz = [0, 0, 0], rpy = [0, 0, 0]\<rparr>,
                       link_type = ''default''\<rparr>],
          joints = []\<rparr>\<close>
proof -
  have a: \<open>re_search True visual_pattern
      (group_text [(1, ''a''), (2, ''><visual><origin xyz="0 0 0" rpy="0 0 1.5"/></visual>'')] 2) =
      Some ([(1, ''<origin xyz="0 0 0" rpy="0 0 1.5"/>'')], [])\<close>
    by code_simp
  have b: \<open>parse_origin True (group_text [(1, ''<origin xyz="0 0 0" rpy="0 0 1.5"/>'')] 1) =
      Inr \<lparr>xyz = [0, 0, 0], rpy = [0, 0, 3 / 2]\<rparr>\<close>
    by code_simp
  have c: \<open>link_of_match True
      [(1, ''a''), (2, ''><visual><origin xyz="0 0 0" rpy="0 0 1.5"/></visual>'')] =
      Inr \<lparr>link_name = ''a'', link_geometry = default_box,
           link_origin = \<lparr>xyz = [0, 0, 0], rpy = [0, 0, 0]\<rparr>, link_type = ''default''\<rparr>\<close>
    by code_simp
  have d: \<open>link_origin \<lparr>link_name = ''a'', link_geometry = default_box,
       link_origin = \<lparr>xyz = [0, 0, 0], rpy = [0, 0, 0]\<rparr>, link_type = ''default''\<rparr> =
     \<lparr>xyz = [0, 0, 0], rpy = [0, 0, 0]\<rparr>\<close>
    using rotation_only_visual_origin_discarded [OF a b _ c] by simp
  have e: \<open>finditer False link_pattern
      ''<link name="a"><visual><origin xyz="0 0 0" rpy="0 0 1.5"/></visual></link>'' =
     [[(1, ''a''), (2, ''><visual><origin xyz="0 0 0" rpy="0 0 1.5"/></visual>'')]]\<close>
    by code_simp
  have f: \<open>re_search True visual_pattern
      ''><visual><origin xyz="0 0 0" rpy="0 0 1.5"/></visual>'' =
     Some ([(1, ''<origin xyz="0 0 0" rpy="0 0 1.5"/>'')], [])\<close>
    by code_simp
  have g: \<open>parse_origin True ''<origin xyz="0 0 0" rpy="0 0 1.5"/>'' =
     Inr \<lparr>xyz = [0, 0, 0], rpy = [0, 0, 3 / 2]\<rparr>\<close>
    by code_simp
  have h: \<open>parse_urdf True
      ''<link name="a"><visual><origin xyz="0 0 0" rpy="0 0 1.5"/></visual></link>'' =
     Inr \<lparr>links = [\<lparr>link_name = ''a'', link_geometry = default_box,
                       link_origin = \<lparr>xyz = [0, 0, 0], rpy = [0, 0, 0]\<rparr>,
                       link_type = ''default''\<rparr>],
          joints = []\<rparr>\<close>
    by code_simp
  show ?thesis
    using d e f g h by blast
qed

section \<open>Properties of the hierarchy builder\<close>

lemma first_visit_map_of: "first_visit n vs = map_of vs n"
  by (induction vs) (auto simp: first_visit_def)

lemma depth_of_append_child: "depth_of (append_child node c h) = depth_of h"
  by (rule ext) (auto simp: depth_of_def append_child_def update_conv' split: option.splits)

lemma depth_of_fold:
  assumes "\<And>j h'. j \<in> set xs \<Longrightarrow> depth_of (f j h') = map_of (g j) ++ depth_of h'"
  shows "depth_of (fold f xs h0) = map_of (concat (map g xs)) ++ depth_of h0"
  using assms
proof (induction xs arbitrary: h0)
  case Nil
  then show ?case by simp
next
  case (Cons x xs)
  have "depth_of (fold f xs (f x h0)) = map_of (concat (map g xs)) ++ depth_of (f x h0)"
    using Cons by simp
  also have "\<dots> = map_of (concat (map g xs)) ++ (map_of (g x) ++ depth_of h0)"
    using Cons.prems by simp
  finally show ?case by simp
qed

lemma depth_of_build:
  "depth_of (build_hierarchy js node d h) = map_of (visits js node d) ++ depth_of h"
proof (induction js node d h rule: build_hierarchy.induct)
  case (1 js node d h)
  show ?case
  proof (cases "d > 10")
    case True
    then show ?thesis
      by (simp add: build_hierarchy.simps [of js node d h] visits.simps [of js node d])
  next
    case False
    let ?h0 = "if map_of h node = None
      then AList.update node \<lparr>node_depth = d, node_children = []\<rparr> h else h"
    let ?f = "\<lambda>j h'. if parent j = node
      then build_hierarchy js (child j) (d + 1) (append_child node (child j) h') else h'"
    let ?g = "\<lambda>j. if parent j = node then visits js (child j) (d + 1) else []"
    have step: "depth_of (?f j h') = map_of (?g j) ++ depth_of h'" if "j \<in> set js" for j h'
      using "1.IH" [OF False that] by (simp add: depth_of_append_child)
    have "depth_of (fold ?f js ?h0) = map_of (concat (map ?g js)) ++ depth_of ?h0"
      by (rule depth_of_fold) (rule step)
    moreover have "map_of (concat (map ?g js)) ++ depth_of ?h0 =
        map_of ((node, d) # concat (map ?g js)) ++ depth_of h"
      by (rule ext) (auto simp: depth_of_def update_conv' map_add_def split: option.splits)
    moreover have "build_hierarchy js node d h = fold ?f js ?h0"
      using False by (simp add: build_hierarchy.simps [of js node d h])
    moreover have "visits js node d = (node, d) # concat (map ?g js)"
      using False by (simp add: visits.simps [of js node d])
    ultimately show ?thesis
      by (simp only:)
  qed
qed

lemma depth_of_roots:
  "depth_of (fold (\<lambda>root h. build_hierarchy js root 0 h) rs h0) =
     map_of (concat (map (\<lambda>root. visits js root 0) rs)) ++ depth_of h0"
  by (rule depth_of_fold) (rule depth_of_build)

lemma depth_of_Nil: "depth_of [] = Map.empty"
  by (rule ext) (simp add: depth_of_def)

text \<open>
  C7, amended.  When a link is visited several times, at different depths, the depth
  recorded for it in the hierarchy is the depth of its first visit: for every node, the
  recorded depth is the depth of the first visit of that node among all visits, and a
  node that is never visited has no entry.
\<close>

theorem hierarchy_depth_is_first_visit:
  "depth_of (hierarchy_of ls js) n = first_visit n (all_visits ls js)"
  by (simp add: hierarchy_of_def all_visits_def depth_of_roots first_visit_map_of depth_of_Nil)

text \<open>
  C7, as the claim states it, fails.  With joints \<open>A \<rightarrow> B\<close>, \<open>A \<rightarrow> C\<close> and \<open>C \<rightarrow> B\<close> the link \<open>B\<close> is
  visited at depth 1 and then at depth 2; the hierarchy records depth 1, the last visit
  has depth 2.
\<close>

theorem hierarchy_depth_not_last_visit:
  "depth_of (hierarchy_of [''A'', ''B'', ''C'']
      [\<lparr>name = ''j1'', parent = ''A'', child = ''B''\<rparr>,
       \<lparr>name = ''j2'', parent = ''A'', child = ''C''\<rparr>,
       \<lparr>name = ''j3'', parent = ''C'', child = ''B''\<rparr>]) ''B'' = Some 1 \<and>
   all_visits [''A'', ''B'', ''C'']
      [\<lparr>name = ''j1'', parent = ''A'', child = ''B''\<rparr>,
       \<lparr>name = ''j2'', parent = ''A'', child = ''C''\<rparr>,
       \<lparr>name = ''j3'', parent = ''C'', child = ''B''\<rparr>] =
     [(''A'', 0), (''B'', 1), (''C'', 1), (''B'', 2)] \<and>
   last_visit ''B'' [(''A'', 0), (''B'', 1), (''C'', 1), (''B'', 2)] = Some 2"
  by code_simp

section \<open>Properties of the change analysis\<close>

lemma fold_count_line:
  "added_lines (fold count_line diff ch) = added_lines ch + length (filter is_added diff) \<and>
   removed_lines (fold count_line diff ch) = removed_lines ch + length (filter is_removed diff) \<and>
   length (line_changes (fold count_line diff ch)) =
     length (line_changes ch) + length (filter is_added diff) + length (filter is_removed diff) \<and>
   changes_by_type (fold count_line diff ch) = changes_by_type ch"
proof (induction diff arbitrary: ch)
  case Nil
  show ?case by simp
next
  case (Cons line diff)
  have "is_added line \<Longrightarrow> \<not> is_removed line"
    by (auto simp: is_added_def is_removed_def startswith_def)
  then show ?case
    by (simp add: Cons [of "count_line line ch"]) (simp add: count_line_def)
qed






lemma inner_loop_append:
  assumes "\<forall>j\<in>set xs. blo \<le> j \<and> j < bhi"
  shows "inner_loop i blo bhi f (xs @ ys) st = inner_loop i blo bhi f ys (inner_loop i blo bhi f xs st)"
  using assms
proof (induction xs arbitrary: st)
  case Nil
  show ?case by simp
next
  case (Cons x xs)
  obtain nf bi bj bk where st: "st = (nf, bi, bj, bk)" by (cases st) auto
  from Cons show ?case by (simp add: st Let_def)
qed

lemma inner_loop_fst:
  assumes "\<forall>j\<in>set xs. blo \<le> j \<and> j < bhi"
  shows "fst (inner_loop i blo bhi f xs (nf, best)) = (\<lambda>j. if j \<in> set xs then cell f j else nf j)"
  using assms
proof (induction xs arbitrary: nf best)
  case Nil
  show ?case by simp
next
  case (Cons x xs)
  obtain bi bj bk where best: "best = (bi, bj, bk)" by (cases best) auto
  from Cons show ?case
    by (auto simp: best Let_def cell_def fun_eq_iff)
qed

lemma inner_loop_no_update:
  assumes "\<forall>j\<in>set xs. blo \<le> j \<and> j < bhi \<and> cell f j \<le> bk"
  shows "snd (inner_loop i blo bhi f xs (nf, (bi, bj, bk))) = (bi, bj, bk)"
  using assms
  by (induction xs arbitrary: nf) (auto simp: Let_def cell_def)

lemma indices_of_split:
  assumes "i < length a"
  shows "indices_of (a ! i) a =
     filter (\<lambda>j. a ! j = a ! i) [0 ..< i] @ [i] @ filter (\<lambda>j. a ! j = a ! i) [Suc i ..< length a]"
proof -
  have "[0 ..< length a] = [0 ..< i] @ [i] @ [Suc i ..< length a]"
    using assms by (metis append_Cons append_Nil le0 less_imp_le_nat upt_add_eq_append
        upt_conv_Cons le_add_diff_inverse)
  then show ?thesis by (simp add: indices_of_def)
qed

lemma cell_bounds:
  assumes "row_ok a i f" and "\<not> popular a (a ! i)" and "a ! j = a ! i"
  shows "cell f j \<le> clean_run a i" and "cell f j \<le> clean_run a j"
    and "j = i \<Longrightarrow> cell f j = clean_run a i"
proof -
  show "cell f j \<le> clean_run a i"
    using assms(1,2) by (cases i) (auto simp: row_ok_def cell_def intro: le_trans)
  show "cell f j \<le> clean_run a j"
    using assms by (cases j) (auto simp: row_ok_def cell_def)
  show "cell f j = clean_run a i" if "j = i"
    using assms(1,2) that by (cases i) (auto simp: row_ok_def cell_def)
qed

lemma same_row:
  assumes "i < length a" and "row_ok a i f" and "diag_ok a i best"
    and "inner_loop i 0 (length a) f (b2j (\<lambda>_. False) a (a ! i)) (\<lambda>_. 0, best) = (f', best')"
  shows "row_ok a (Suc i) f' \<and> diag_ok a (Suc i) best'"
proof (cases "popular a (a ! i)")
  case True
  then have "f' = (\<lambda>_. 0)" "best' = best"
    using assms(4) by (simp_all add: b2j_def)
  moreover have "clean_run a i = 0"
    using True by (cases i) simp_all
  ultimately show ?thesis
    using assms(3) by (auto simp: row_ok_def diag_ok_def less_Suc_eq)
next
  case False
  obtain bi bj bk where best: "best = (bi, bj, bk)" by (cases best) auto
  let ?xs = "filter (\<lambda>j. a ! j = a ! i) [0 ..< i]"
  let ?ys = "filter (\<lambda>j. a ! j = a ! i) [Suc i ..< length a]"
  have js: "b2j (\<lambda>_. False) a (a ! i) = ?xs @ [i] @ ?ys"
    using False indices_of_split [OF assms(1)] by (simp add: b2j_def)
  have rng: "\<forall>j\<in>set (?xs @ [i] @ ?ys). 0 \<le> j \<and> j < length a"
    using assms(1) by auto
  have f': "f' = (\<lambda>j. if j \<in> set (?xs @ [i] @ ?ys) then cell f j else 0)"
    using inner_loop_fst [OF rng, of i f "\<lambda>_. 0" best] assms(4) by (simp add: js)
  have row: "row_ok a (Suc i) f'"
    unfolding row_ok_def f'
    using cell_bounds [OF assms(2) False] by auto
  have bi: "bi = bj" and bk: "\<forall>j<i. clean_run a j \<le> bk"
    using assms(3) by (simp_all add: diag_ok_def best)
  let ?s1 = "inner_loop i 0 (length a) f ?xs (\<lambda>_. 0, best)"
  have s1: "snd ?s1 = (bi, bj, bk)"
    unfolding best
  proof (rule inner_loop_no_update, intro ballI)
    fix j assume "j \<in> set ?xs"
    then have j: "j < i" "a ! j = a ! i" by auto
    with cell_bounds(2) [OF assms(2) False j(2)] bk assms(1)
    show "0 \<le> j \<and> j < length a \<and> cell f j \<le> bk"
      by (auto intro: le_trans)
  qed
  obtain nf1 where s1': "?s1 = (nf1, bi, bj, bk)"
    using s1 by (cases ?s1) auto
  let ?s2 = "inner_loop i 0 (length a) f [i] ?s1"
  define best2 where "best2 =
    (if cell f i > bk then (i + 1 - cell f i, i + 1 - cell f i, cell f i) else (bi, bj, bk))"
  have s2: "?s2 = (nf1(i := cell f i), best2)"
    using assms(1) by (simp add: s1' Let_def cell_def best2_def)
  obtain ci cj ck where b2: "best2 = (ci, cj, ck)" by (cases best2) auto
  have c: "ci = cj" "clean_run a i \<le> ck" "bk \<le> ck"
    using b2 bi cell_bounds(3) [OF assms(2) False refl refl]
    by (auto simp: best2_def split: if_splits)
  have s3: "snd (inner_loop i 0 (length a) f ?ys (nf1(i := cell f i), ci, cj, ck)) = (ci, cj, ck)"
  proof (rule inner_loop_no_update, intro ballI)
    fix j assume "j \<in> set ?ys"
    then have j: "j < length a" "a ! j = a ! i" by auto
    with cell_bounds(1) [OF assms(2) False j(2)] c(2)
    show "0 \<le> j \<and> j < length a \<and> cell f j \<le> ck"
      by (auto intro: le_trans)
  qed
  have "inner_loop i 0 (length a) f (?xs @ ([i] @ ?ys)) (\<lambda>_. 0, best) =
      inner_loop i 0 (length a) f ([i] @ ?ys) ?s1"
    by (rule inner_loop_append) (use assms(1) in auto)
  also have "\<dots> = inner_loop i 0 (length a) f ?ys ?s2"
    by (rule inner_loop_append) (use assms(1) in auto)
  finally have "best' = (ci, cj, ck)"
    using assms(4) s3 by (simp add: js s2 b2)
  then have "diag_ok a (Suc i) best'"
    using c bk by (auto simp: diag_ok_def less_Suc_eq intro: le_trans)
  with row show ?thesis by simp
qed

lemma same_rows:
  assumes "m \<le> length a"
  shows "row_ok a m (fst (longest_loop (b2j (\<lambda>_. False) a) a 0 m 0 (length a))) \<and>
     diag_ok a m (snd (longest_loop (b2j (\<lambda>_. False) a) a 0 m 0 (length a)))"
  using assms
proof (induction m)
  case 0
  show ?case by (simp add: longest_loop_def row_ok_def diag_ok_def)
next
  case (Suc m)
  let ?g = "b2j (\<lambda>_. False) a"
  obtain f best where st: "longest_loop ?g a 0 m 0 (length a) = (f, best)"
    by (cases "longest_loop ?g a 0 m 0 (length a)") auto
  obtain f' best' where r: "inner_loop m 0 (length a) f (?g (a ! m)) (\<lambda>_. 0, best) = (f', best')"
    by (cases "inner_loop m 0 (length a) f (?g (a ! m)) (\<lambda>_. 0, best)") auto
  have step: "longest_loop ?g a 0 (Suc m) 0 (length a) = (f', best')"
    using st r by (simp add: longest_loop_def)
  have "row_ok a m f" "diag_ok a m best" "m < length a"
    using Suc st by simp_all
  from same_row [OF this(3,1,2) r] step show ?case by simp
qed

lemma extend_back_same:
  "extend_back (\<lambda>x. True) a a 0 0 (i, i, k) = (0, 0, k + i)"
proof (induction i arbitrary: k)
  case 0
  show ?case by (subst extend_back.simps) simp
next
  case (Suc i)
  have "extend_back (\<lambda>x. True) a a 0 0 (Suc i, Suc i, k) = extend_back (\<lambda>x. True) a a 0 0 (i, i, k + 1)"
    by (subst extend_back.simps) simp
  with Suc [of "k + 1"] show ?case by simp
qed

lemma extend_forward_same:
  assumes "k \<le> length a"
  shows "extend_forward (\<lambda>x. True) a a (length a) (length a) (0, 0, k) = (0, 0, length a)"
  using assms
proof (induction "length a - k" arbitrary: k)
  case 0
  then show ?case by (subst extend_forward.simps) simp
next
  case (Suc d)
  then have "extend_forward (\<lambda>x. True) a a (length a) (length a) (0, 0, k) =
      extend_forward (\<lambda>x. True) a a (length a) (length a) (0, 0, k + 1)"
    by (subst extend_forward.simps) simp
  moreover have "d = length a - (k + 1)" "k + 1 \<le> length a"
    using Suc.hyps(2) by simp_all
  ultimately show ?case using Suc.hyps(1) by simp
qed

lemma extend_back_never: "extend_back (\<lambda>x. False) a b alo blo m = m"
  by (cases m) (simp add: extend_back.simps)

lemma extend_forward_never: "extend_forward (\<lambda>x. False) a b ahi bhi m = m"
  by (cases m) (simp add: extend_forward.simps)

lemma find_longest_match_same:
  "find_longest_match (\<lambda>_. False) a a 0 (length a) 0 (length a) = (0, 0, length a)"
proof -
  let ?best = "snd (longest_loop (b2j (\<lambda>_. False) a) a 0 (length a) 0 (length a))"
  obtain bi bj bk where best: "?best = (bi, bj, bk)" by (cases ?best) auto
  have "diag_ok a (length a) ?best"
    using same_rows [of "length a" a] by simp
  then have d: "bj = bi" by (simp add: diag_ok_def best)
  have "good_best 0 0 (length a) (length a) ?best"
    using longest_loop_bounds [where ahi = "length a" and alo = 0 and blo = 0 and bhi = "length a"
        and g = "b2j (\<lambda>_. False) a" and a = a] by simp
  then have "bk + bi \<le> length a"
    by (auto simp: good_best_def best d split: if_splits)
  then show ?thesis
    by (simp add: find_longest_match_def Let_def best d extend_back_same extend_forward_same
        extend_back_never extend_forward_never)
qed

lemma get_opcodes_same:
  assumes "a \<noteq> []"
  shows "get_opcodes (\<lambda>_. False) a a = [(Equal, 0, length a, 0, length a)]"
proof -
  have "matching_loop (\<lambda>_. False) a a [(0, length a, 0, length a)] [] = [(0, 0, length a)]"
    using assms by (simp add: find_longest_match_same)
  then have "get_matching_blocks (\<lambda>_. False) a a = [(0, 0, length a), (length a, length a, 0)]"
    using assms by (simp add: get_matching_blocks_def Let_def del: matching_loop.simps)
  then show ?thesis
    using assms by (simp add: get_opcodes_def)
qed

lemma map_nth_fun: "map (\<lambda>i. f (a ! i)) [0 ..< length a] = map f a"
proof -
  have "map (\<lambda>i. f (a ! i)) [0 ..< length a] = map f (map ((!) a) [0 ..< length a])"
    by (simp only: map_map comp_def)
  then show ?thesis by (simp only: map_nth)
qed

lemma ndiff_same: "ndiff a a = map (\<lambda>line. CHR '' '' # CHR '' '' # line) a"
proof (cases "a = []")
  case True
  have "matching_loop (\<lambda>_. False) ([] :: string list) [] [(0, 0, 0, 0)] [] = []"
    using find_longest_match_same [of "[] :: string list"] by simp
  then show ?thesis
    by (simp add: True ndiff_def compare_def get_opcodes_def get_matching_blocks_def
        del: matching_loop.simps)
next
  case False
  have "compare (\<lambda>_. False) IS_CHARACTER_JUNK a a = dump CHR '' '' a 0 (length a)"
    by (simp add: compare_def get_opcodes_same [OF False])
  then show ?thesis
    using map_nth_fun [of "\<lambda>line. CHR '' '' # CHR '' '' # line" a]
    by (simp add: ndiff_def dump_def)
qed

lemma fold_count_unchanged:
  "fold count_line (map (\<lambda>line. CHR '' '' # CHR '' '' # line) xs) ch =
     ch\<lparr>unchanged_lines := unchanged_lines ch + length xs\<rparr>"
  by (induction xs arbitrary: ch)
    (simp_all add: count_line_def is_added_def is_removed_def startswith_def)

text \<open>
  C6.  The change analysis of a text against itself reports no added line, no removed
  line and an empty change-by-type mapping; every line is unchanged.  (For the empty
  text the function returns the empty dictionary, as for any empty input.)
\<close>

theorem analysis_of_equal_texts:
  "analyze_code_changes t t =
     (if t = [] then None
      else Some \<lparr>added_lines = 0, removed_lines = 0, modified_lines = 0,
                 unchanged_lines = length (splitlines t), changes_by_type = [],
                 line_changes = []\<rparr>)"
  by (simp add: analyze_code_changes_def analyze_diff_def ndiff_same fold_count_unchanged Let_def)

lemma wchain_start: "wchain m n xs \<Longrightarrow> i \<le> m \<Longrightarrow> j \<le> n \<Longrightarrow> wchain i j xs"
  by (cases xs) auto

lemma chain_start: "chain m n ahi bhi xs \<Longrightarrow> i \<le> m \<Longrightarrow> j \<le> n \<Longrightarrow> chain i j ahi bhi xs"
  by (cases xs) auto

lemma chain_append:
  "chain i j m n xs \<Longrightarrow> chain m n ahi bhi ys \<Longrightarrow> chain i j ahi bhi (xs @ ys)"
  by (induction xs arbitrary: i j) (auto intro: chain_start)

lemma chain_wchain: "chain i j ahi bhi xs \<Longrightarrow> wchain i j (xs @ [(ahi, bhi, 0)])"
  by (induction xs arbitrary: i j) auto

lemma chain_lower: "chain i j ahi bhi xs \<Longrightarrow> x \<in> set xs \<Longrightarrow> i \<le> fst x"
proof (induction xs arbitrary: i j)
  case Nil
  then show ?case by simp
next
  case (Cons y ys)
  obtain bi bj k where y: "y = (bi, bj, k)" by (cases y) auto
  show ?case
  proof (cases "x = y")
    case True
    with Cons.prems y show ?thesis by simp
  next
    case False
    with Cons.prems have "x \<in> set ys" by simp
    from Cons.IH [OF _ this, of "bi + k" "bj + k"] Cons.prems(1) show ?thesis
      by (simp add: y)
  qed
qed

lemma chain_sorted: "chain i j ahi bhi xs \<Longrightarrow> sorted xs"
proof (induction xs arbitrary: i j)
  case Nil
  show ?case by simp
next
  case (Cons y ys)
  obtain bi bj k where y: "y = (bi, bj, k)" by (cases y) auto
  have c: "chain (bi + k) (bj + k) ahi bhi ys" and k: "0 < k"
    using Cons.prems by (simp_all add: y)
  have "y \<le> x" if "x \<in> set ys" for x
    using chain_lower [OF c that] k by (cases x) (auto simp: y less_eq_prod_def)
  with Cons.IH [OF c] show ?case by simp
qed

lemma blocks_rec_chain:
  "alo \<le> ahi \<Longrightarrow> blo \<le> bhi \<Longrightarrow>
   chain alo blo ahi bhi (blocks_rec isjunk a b alo ahi blo bhi)"
proof (induction isjunk a b alo ahi blo bhi rule: blocks_rec.induct)
  case (1 isjunk a b alo ahi blo bhi)
  obtain i j k where f: "find_longest_match isjunk a b alo ahi blo bhi = (i, j, k)"
    by (cases "find_longest_match isjunk a b alo ahi blo bhi") auto
  show ?case
  proof (cases "k = 0")
    case True
    with f "1.prems" show ?thesis
      by (simp add: blocks_rec.simps [of isjunk a b alo ahi blo bhi])
  next
    case False
    note r = find_longest_match_range [OF f False]
    let ?L = "if alo < i \<and> blo < j then blocks_rec isjunk a b alo i blo j else []"
    let ?R = "if i + k < ahi \<and> j + k < bhi then blocks_rec isjunk a b (i + k) ahi (j + k) bhi
      else []"
    have L: "chain alo blo i j ?L"
      using "1.IH"(1) [OF f [symmetric] refl False] r by auto
    have R: "chain (i + k) (j + k) ahi bhi ?R"
      using "1.IH"(2) [OF f [symmetric] refl False] r by auto
    have "chain i j ahi bhi ((i, j, k) # ?R)"
      using R False by simp
    from chain_append [OF L this] f False show ?thesis
      by (simp add: blocks_rec.simps [of isjunk a b alo ahi blo bhi])
  qed
qed

lemma matching_loop_mset:
  "mset (matching_loop isjunk a b queue blocks) =
   mset blocks +
   sum_list (map (\<lambda>(alo, ahi, blo, bhi). mset (blocks_rec isjunk a b alo ahi blo bhi)) queue)"
proof (induction isjunk a b queue blocks rule: matching_loop.induct)
  case (1 isjunk a b blocks)
  show ?case by simp
next
  case (2 isjunk a b alo ahi blo bhi queue blocks)
  obtain i j k where f: "find_longest_match isjunk a b alo ahi blo bhi = (i, j, k)"
    by (cases "find_longest_match isjunk a b alo ahi blo bhi") auto
  show ?case
  proof (cases "k = 0")
    case True
    with "2.IH"(2) [OF f [symmetric] refl] f show ?thesis
      by (simp add: blocks_rec.simps [of isjunk a b alo ahi blo bhi])
  next
    case False
    with "2.IH"(1) [OF f [symmetric] refl] f show ?thesis
      by (simp add: blocks_rec.simps [of isjunk a b alo ahi blo bhi])
  qed
qed

lemma sorted_blocks:
  "sort (matching_loop isjunk a b [(0, length a, 0, length b)] []) =
   blocks_rec isjunk a b 0 (length a) 0 (length b)"
proof (rule properties_for_sort)
  show "mset (blocks_rec isjunk a b 0 (length a) 0 (length b)) =
      mset (matching_loop isjunk a b [(0, length a, 0, length b)] [])"
    by (simp add: matching_loop_mset del: matching_loop.simps)
  show "sorted (blocks_rec isjunk a b 0 (length a) 0 (length b))"
    by (rule chain_sorted [OF blocks_rec_chain]) simp_all
qed

lemma wchain_remove_zero: "wchain i j (xs @ (p, q, 0) # ys) \<Longrightarrow> wchain i j (xs @ ys)"
  by (induction xs arbitrary: i j) (auto intro: wchain_start)

lemma wchain_merge:
  "wchain i j (xs @ (i1, j1, k1) # (i1 + k1, j1 + k1, k2) # ys) \<Longrightarrow>
   wchain i j (xs @ (i1, j1, k1 + k2) # ys)"
  by (induction xs arbitrary: i j) (auto simp: add.assoc)

lemma collapse_wchain:
  "wchain i j (acc @ (i1, j1, k1) # rest @ tail) \<Longrightarrow>
   wchain i j (collapse_loop (i1, j1, k1) rest acc @ tail)"
proof (induction rest arbitrary: acc i1 j1 k1)
  case Nil
  then show ?case
    by (cases "k1 = 0") (auto dest: wchain_remove_zero)
next
  case (Cons x rest)
  obtain i2 j2 k2 where x: "x = (i2, j2, k2)" by (cases x) auto
  show ?case
  proof (cases "i1 + k1 = i2 \<and> j1 + k1 = j2")
    case True
    with Cons.prems have "wchain i j (acc @ (i1, j1, k1 + k2) # rest @ tail)"
      using wchain_merge [of i j acc i1 j1 k1 k2 "rest @ tail"] by (simp add: x)
    from Cons.IH [OF this] True show ?thesis by (simp add: x)
  next
    case False
    let ?acc = "if k1 \<noteq> 0 then acc @ [(i1, j1, k1)] else acc"
    have "wchain i j (?acc @ (i2, j2, k2) # rest @ tail)"
      using Cons.prems wchain_remove_zero [of i j acc i1 j1 "(i2, j2, k2) # rest @ tail"]
      by (auto simp: x)
    moreover have "collapse_loop (i1, j1, k1) (x # rest) acc = collapse_loop (i2, j2, k2) rest ?acc"
      using False by (auto simp: x)
    ultimately show ?thesis
      using Cons.IH [of ?acc i2 j2 k2] by (simp only:)
  qed
qed

lemma get_matching_blocks_wchain: "wchain 0 0 (get_matching_blocks isjunk a b)"
proof -
  let ?bs = "blocks_rec isjunk a b 0 (length a) 0 (length b)"
  have "chain 0 0 (length a) (length b) ?bs"
    by (rule blocks_rec_chain) simp_all
  then have "wchain 0 0 ([] @ (0, 0, 0) # ?bs @ [(length a, length b, 0)])"
    by (simp add: chain_wchain)
  from collapse_wchain [OF this] show ?thesis
    by (simp add: get_matching_blocks_def Let_def sorted_blocks del: matching_loop.simps)
qed

lemma end_sentinel:
  "end_a i (xs @ [(la, lb, 0)]) = la" "end_b j (xs @ [(la, lb, 0)]) = lb"
  by (induction xs arbitrary: i j) auto

lemma get_matching_blocks_end:
  "end_a 0 (get_matching_blocks isjunk a b) = length a"
  "end_b 0 (get_matching_blocks isjunk a b) = length b"
  by (simp_all add: get_matching_blocks_def Let_def end_sentinel del: matching_loop.simps)

lemma from_append [simp]:
  "from_a (xs @ ys) = from_a xs + from_a ys" "from_b (xs @ ys) = from_b xs + from_b ys"
  by (simp_all add: from_a_def from_b_def)

lemma from_Nil [simp]: "from_a [] = 0" "from_b [] = 0"
  by (simp_all add: from_a_def from_b_def)

lemma filter_dump:
  "filter is_added (dump tg x lo hi) = (if tg = CHR ''+'' then dump tg x lo hi else [])"
  "filter is_removed (dump tg x lo hi) = (if tg = CHR ''-'' then dump tg x lo hi else [])"
  "filter is_unchanged (dump tg x lo hi) = (if tg = CHR '' '' then dump tg x lo hi else [])"
  by (auto simp: dump_def is_added_def is_removed_def is_unchanged_def startswith_def
      filter_empty_conv)

lemma from_dump:
  "from_a (dump CHR ''-'' x lo hi) = hi - lo" "from_b (dump CHR ''-'' x lo hi) = 0"
  "from_a (dump CHR ''+'' x lo hi) = 0" "from_b (dump CHR ''+'' x lo hi) = hi - lo"
  "from_a (dump CHR '' '' x lo hi) = hi - lo" "from_b (dump CHR '' '' x lo hi) = hi - lo"
  by (simp_all add: from_a_def from_b_def filter_dump) (simp_all add: dump_def)

lemma from_plain_replace:
  "from_a (plain_replace a alo ahi b blo bhi) = ahi - alo"
  "from_b (plain_replace a alo ahi b blo bhi) = bhi - blo"
  by (simp_all add: plain_replace_def from_dump)

lemma from_intraline:
  "from_a (intraline charjunk aelt belt) = 1" "from_b (intraline charjunk aelt belt) = 1"
  by (simp_all add: intraline_def qformat_def Let_def from_a_def from_b_def is_added_def
      is_removed_def is_unchanged_def startswith_def split: prod.splits)

lemma from_identical:
  "from_a [CHR '' '' # CHR '' '' # x] = 1" "from_b [CHR '' '' # CHR '' '' # x] = 1"
  by (simp_all add: from_a_def from_b_def is_added_def is_removed_def is_unchanged_def
      startswith_def)

lemma from_fancy:
  "from_a (fancy_replace charjunk a alo ahi b blo bhi) = ahi - alo \<and>
   from_b (fancy_replace charjunk a alo ahi b blo bhi) = bhi - blo"
  "from_a (fancy_helper charjunk a alo ahi b blo bhi) = ahi - alo \<and>
   from_b (fancy_helper charjunk a alo ahi b blo bhi) = bhi - blo"
proof (induction charjunk a alo ahi b blo bhi and charjunk a alo ahi b blo bhi
    rule: fancy_replace_fancy_helper.induct)
  case (1 charjunk a alo ahi b blo bhi)
  show ?case
  proof (cases "sync_point (fancy_search charjunk a alo ahi b blo bhi)")
    case None
    then show ?thesis
      by (simp add: fancy_replace.simps [of charjunk a alo ahi b blo bhi] from_plain_replace)
  next
    case (Some p)
    obtain best_i best_j idt where p: "p = ((best_i, best_j), idt)"
      by (cases p) auto
    note s = Some [unfolded p]
    note r = sync_point_range [OF s]
    have "from_a (fancy_helper charjunk a alo best_i b blo best_j) = best_i - alo"
      "from_b (fancy_helper charjunk a alo best_i b blo best_j) = best_j - blo"
      "from_a (fancy_helper charjunk a (best_i + 1) ahi b (best_j + 1) bhi) = ahi - (best_i + 1)"
      "from_b (fancy_helper charjunk a (best_i + 1) ahi b (best_j + 1) bhi) = bhi - (best_j + 1)"
      using "1.IH"(1) [OF s refl refl] "1.IH"(2) [OF s refl refl] by simp_all
    with r show ?thesis
      by (simp add: fancy_replace.simps [of charjunk a alo ahi b blo bhi] s from_intraline
          from_identical)
  qed
next
  case (2 charjunk a alo ahi b blo bhi)
  then show ?case
    by (auto simp: fancy_helper.simps [of charjunk a alo ahi b blo bhi] from_dump)
qed

lemma from_render_gap:
  assumes "i \<le> ai" and "j \<le> bj"
  shows "from_a (concat (map (render charjunk a b)
       (if i < ai \<and> j < bj then [(Replace, i, ai, j, bj)]
        else if i < ai then [(Delete, i, ai, j, bj)]
        else if j < bj then [(Insert, i, ai, j, bj)]
        else []))) = ai - i"
    and "from_b (concat (map (render charjunk a b)
       (if i < ai \<and> j < bj then [(Replace, i, ai, j, bj)]
        else if i < ai then [(Delete, i, ai, j, bj)]
        else if j < bj then [(Insert, i, ai, j, bj)]
        else []))) = bj - j"
  using assms by (auto simp: render_def from_dump from_fancy)

lemma from_render_equal:
  "from_a (concat (map (render charjunk a b)
     (if sz \<noteq> 0 then [(Equal, ai, ai + sz, bj, bj + sz)] else []))) = sz"
  "from_b (concat (map (render charjunk a b)
     (if sz \<noteq> 0 then [(Equal, ai, ai + sz, bj, bj + sz)] else []))) = sz"
  by (auto simp: render_def from_dump)

lemma from_opcodes:
  assumes "wchain i j blocks"
  shows "from_a (concat (map (render charjunk a b) (opcodes_loop i j blocks))) + i = end_a i blocks \<and>
     from_b (concat (map (render charjunk a b) (opcodes_loop i j blocks))) + j = end_b j blocks"
  using assms
proof (induction blocks arbitrary: i j)
  case Nil
  show ?case by simp
next
  case (Cons x blocks)
  obtain ai bj sz where x: "x = (ai, bj, sz)" by (cases x) auto
  have le: "i \<le> ai" "j \<le> bj" and w: "wchain (ai + sz) (bj + sz) blocks"
    using Cons.prems by (simp_all add: x)
  define G where "G =
     (if i < ai \<and> j < bj then [(Replace, i, ai, j, bj)]
      else if i < ai then [(Delete, i, ai, j, bj)]
      else if j < bj then [(Insert, i, ai, j, bj)]
      else [])"
  define E where "E = (if sz \<noteq> 0 then [(Equal, ai, ai + sz, bj, bj + sz)] else [])"
  define rest where "rest = concat (map (render charjunk a b) (opcodes_loop (ai + sz) (bj + sz) blocks))"
  have ops: "concat (map (render charjunk a b) (opcodes_loop i j (x # blocks))) =
      concat (map (render charjunk a b) G) @ concat (map (render charjunk a b) E) @ rest"
    by (simp add: x G_def E_def rest_def)
  have g: "from_a (concat (map (render charjunk a b) G)) = ai - i"
    "from_b (concat (map (render charjunk a b) G)) = bj - j"
    unfolding G_def by (rule from_render_gap [OF le])+
  have e: "from_a (concat (map (render charjunk a b) E)) = sz"
    "from_b (concat (map (render charjunk a b) E)) = sz"
    unfolding E_def by (rule from_render_equal)+
  have r: "from_a rest + (ai + sz) = end_a (ai + sz) blocks"
    "from_b rest + (bj + sz) = end_b (bj + sz) blocks"
    using Cons.IH [OF w] by (simp_all add: rest_def)
  show ?case
    unfolding ops using g e r le by (simp add: x)
qed

lemma from_ndiff: "from_a (ndiff a b) = length a" "from_b (ndiff a b) = length b"
proof -
  let ?bs = "get_matching_blocks (\<lambda>_. False) a b"
  have "ndiff a b = concat (map (render IS_CHARACTER_JUNK a b) (opcodes_loop 0 0 ?bs))"
    by (simp add: ndiff_def compare_def get_opcodes_def render_def [abs_def])
  with from_opcodes [OF get_matching_blocks_wchain, of IS_CHARACTER_JUNK a b "\<lambda>_. False" a b]
  show "from_a (ndiff a b) = length a" "from_b (ndiff a b) = length b"
    by (simp_all add: get_matching_blocks_end)
qed

lemma fold_count_unchanged_lines:
  "unchanged_lines (fold count_line diff ch) = unchanged_lines ch + length (filter is_unchanged diff)"
proof (induction diff arbitrary: ch)
  case Nil
  show ?case by simp
next
  case (Cons line diff)
  have "is_unchanged line \<Longrightarrow> \<not> is_added line \<and> \<not> is_removed line"
    by (auto simp: is_unchanged_def is_added_def is_removed_def startswith_def)
  then show ?case
    by (simp add: Cons [of "count_line line ch"]) (auto simp: count_line_def is_unchanged_def)
qed

lemma analyze_diff_counts:
  "added_lines (analyze_diff (ndiff a b)) + unchanged_lines (analyze_diff (ndiff a b)) = length b"
  "removed_lines (analyze_diff (ndiff a b)) + unchanged_lines (analyze_diff (ndiff a b)) = length a"
  using from_ndiff [of a b] fold_count_line [of "ndiff a b"] fold_count_unchanged_lines [of "ndiff a b"]
  by (simp_all add: analyze_diff_def Let_def from_a_def from_b_def)

text \<open>
  C5, amended.  For every pair of non-empty texts, the added and the unchanged lines of
  the analysis of (old, new) together are the lines of \<open>new\<close>, and the removed and the
  unchanged lines together are the lines of \<open>old\<close>.  So the added lines plus the unchanged
  lines of one direction equal the removed lines plus the unchanged lines of the other
  direction, and the added count of one direction equals the removed count of the other
  exactly when both directions report the same number of unchanged lines.
\<close>

theorem change_counts_against_reverse:
  assumes "analyze_code_changes old_content new_content = Some ch"
    and "analyze_code_changes new_content old_content = Some ch'"
  shows "added_lines ch + unchanged_lines ch = length (splitlines new_content) \<and>
     removed_lines ch + unchanged_lines ch = length (splitlines old_content) \<and>
     added_lines ch + unchanged_lines ch = removed_lines ch' + unchanged_lines ch' \<and>
     removed_lines ch + unchanged_lines ch = added_lines ch' + unchanged_lines ch' \<and>
     ((added_lines ch = removed_lines ch' \<and> removed_lines ch = added_lines ch') =
      (unchanged_lines ch = unchanged_lines ch'))"
proof -
  have ch: "ch = analyze_diff (ndiff (splitlines old_content) (splitlines new_content))"
    using assms(1) by (simp add: analyze_code_changes_def split: if_splits)
  have ch': "ch' = analyze_diff (ndiff (splitlines new_content) (splitlines old_content))"
    using assms(2) by (simp add: analyze_code_changes_def split: if_splits)
  have "added_lines ch + unchanged_lines ch = length (splitlines new_content)"
    "removed_lines ch + unchanged_lines ch = length (splitlines old_content)"
    "added_lines ch' + unchanged_lines ch' = length (splitlines old_content)"
    "removed_lines ch' + unchanged_lines ch' = length (splitlines new_content)"
    by (simp_all add: ch ch' analyze_diff_counts)
  then show ?thesis by auto
qed

theorem change_counts_against_reverse_witness:
  \<open>map_option (\<lambda>ch. (added_lines ch, removed_lines ch, unchanged_lines ch))
     (analyze_code_changes
        (''t'' @ [CHR 0x0A] @ ''i'' @ [CHR 0x0A] @ ''d'' @ [CHR 0x0A] @ ''e'')
        (''d'' @ [CHR 0x0A] @ ''i'' @ [CHR 0x0A] @ ''e'' @ [CHR 0x0A] @ ''t'')) = Some (3, 3, 1) \<and>
   map_option (\<lambda>ch. (added_lines ch, removed_lines ch, unchanged_lines ch))
     (analyze_code_changes
        (''d'' @ [CHR 0x0A] @ ''i'' @ [CHR 0x0A] @ ''e'' @ [CHR 0x0A] @ ''t'')
        (''t'' @ [CHR 0x0A] @ ''i'' @ [CHR 0x0A] @ ''d'' @ [CHR 0x0A] @ ''e'')) = Some (2, 2, 2) \<and>
   length (splitlines (''t'' @ [CHR 0x0A] @ ''i'' @ [CHR 0x0A] @ ''d'' @ [CHR 0x0A] @ ''e'')) = 4 \<and>
   (3 :: nat) + 1 = 2 + 2\<close>
proof -
  let ?old = \<open>''t'' @ [CHR 0x0A] @ ''i'' @ [CHR 0x0A] @ ''d'' @ [CHR 0x0A] @ ''e''\<close>
  let ?new = \<open>''d'' @ [CHR 0x0A] @ ''i'' @ [CHR 0x0A] @ ''e'' @ [CHR 0x0A] @ ''t''\<close>
  let ?ch = "analyze_diff (ndiff (splitlines ?old) (splitlines ?new))"
  let ?ch' = "analyze_diff (ndiff (splitlines ?new) (splitlines ?old))"
  have e: "analyze_code_changes ?old ?new = Some ?ch"
    by (simp add: analyze_code_changes_def)
  have e': "analyze_code_changes ?new ?old = Some ?ch'"
    by (simp add: analyze_code_changes_def)
  have v: "map_option (\<lambda>ch. (added_lines ch, removed_lines ch, unchanged_lines ch))
      (analyze_code_changes ?old ?new) = Some (3, 3, 1)"
    by code_simp
  have v': "map_option (\<lambda>ch. (added_lines ch, removed_lines ch, unchanged_lines ch))
      (analyze_code_changes ?new ?old) = Some (2, 2, 2)"
    by code_simp
  have l: "length (splitlines ?old) = 4"
    by code_simp
  have "added_lines ?ch + unchanged_lines ?ch = removed_lines ?ch' + unchanged_lines ?ch'"
    using change_counts_against_reverse [OF e e'] by blast
  moreover have "added_lines ?ch = 3" "unchanged_lines ?ch = 1"
    using v unfolding e by simp_all
  moreover have "removed_lines ?ch' = 2" "unchanged_lines ?ch' = 2"
    using v' unfolding e' by simp_all
  ultimately have "(3 :: nat) + 1 = 2 + 2" by simp
  with v v' l show ?thesis by blast
qed

text \<open>
  C5, as the claim states it, fails.  The alignment of \<open>difflib\<close> is not symmetric in its
  two arguments: it takes the longest matching block that starts earliest in the first
  sequence and recurses to its left and right, so the lines kept as unchanged depend on
  the order of the texts.  From the lines \<open>t, i, d, e\<close> to the lines \<open>d, i, e, t\<close> it reports
  3 added and 3 removed lines; in the other direction 2 added and 2 removed.
\<close>

theorem added_is_not_removed_of_reverse:
  \<open>map_option (\<lambda>ch. (added_lines ch, removed_lines ch))
     (analyze_code_changes
        (''t'' @ [CHR 0x0A] @ ''i'' @ [CHR 0x0A] @ ''d'' @ [CHR 0x0A] @ ''e'')
        (''d'' @ [CHR 0x0A] @ ''i'' @ [CHR 0x0A] @ ''e'' @ [CHR 0x0A] @ ''t'')) = Some (3, 3) \<and>
   map_option (\<lambda>ch. (added_lines ch, removed_lines ch))
     (analyze_code_changes
        (''d'' @ [CHR 0x0A] @ ''i'' @ [CHR 0x0A] @ ''e'' @ [CHR 0x0A] @ ''t'')
        (''t'' @ [CHR 0x0A] @ ''i'' @ [CHR 0x0A] @ ''d'' @ [CHR 0x0A] @ ''e'')) = Some (2, 2)\<close>
  by code_simp

end
